theory Spec2Isabelle
  imports Main "HOL-Library.Word"
begin

unbundle bit_operations_syntax

section \<open>C integer arithmetic\<close>

text \<open>
  The encoder is written in C with 32-bit \<open>int\<close> variables. A value is an
  \<open>int\<close> of HOL; where a sum or a product of the code depends on what the
  caller passes (the phase, the black and white point, the source width and
  height) it wraps around at 32 bits, as the two's complement machine does
  (\<open>add32\<close>, \<open>mul32\<close>). C's \<open>/\<close> and \<open>%\<close> truncate towards
  zero, \<open>>>\<close> on a negative \<open>int\<close> is the arithmetic shift (\<open>drop_bit\<close>
  on \<open>int\<close>), and storing an \<open>int\<close> into a \<open>signed char\<close> keeps
  the low eight bits.
\<close>

definition c_div :: "int \<Rightarrow> int \<Rightarrow> int" where
  "c_div a b = sgn a * sgn b * (\<bar>a\<bar> div \<bar>b\<bar>)"

definition c_mod :: "int \<Rightarrow> int \<Rightarrow> int" where
  "c_mod a b = a - b * c_div a b"

type_synonym schar = "8 word"

definition to_schar :: "int \<Rightarrow> schar" where
  "to_schar x = word_of_int x"

definition in_int32 :: "int \<Rightarrow> bool" where
  "in_int32 x \<longleftrightarrow> - 2147483648 \<le> x \<and> x \<le> 2147483647"

definition wrap32 :: "int \<Rightarrow> int" where
  "wrap32 x = (x + 2147483648) mod 4294967296 - 2147483648"

definition add32 :: "int \<Rightarrow> int \<Rightarrow> int" where
  "add32 a b = wrap32 (a + b)"

definition mul32 :: "int \<Rightarrow> int \<Rightarrow> int" where
  "mul32 a b = wrap32 (a * b)"

section \<open>The pixel modulator: \<open>square_sample\<close>\<close>

text \<open>The table \<open>IRE[16]\<close> of \<open>square_sample\<close>.\<close>

definition IRE :: "int list" where
  "IRE = [- 12042, 0, 34406, 81427,
          - 17203, - 8028, 19497, 57342,
          43581, 75693, 112965, 112965,
          26951, 52181, 83721, 83721]"

text \<open>
  The table \<open>active[6]\<close>, written in octal in the source:
  0300, 0200, 0600, 0400, 0500, 0100. The mask 0700 is 448.
\<close>

definition active :: "int list" where
  "active = [192, 128, 384, 256, 320, 64]"

text \<open>
  Reading \<open>active[i]\<close>. The table is static data; an index outside it reads
  whatever the memory next to the table holds, which the function \<open>m\<close>
  stands for.
\<close>

definition active_at :: "(int \<Rightarrow> int) \<Rightarrow> int \<Rightarrow> int" where
  "active_at m i = (if 0 \<le> i \<and> i < 6 then active ! nat i else m i)"

text \<open>
  \<open>square_sample\<close>. The index into \<open>IRE\<close> is
  \<open>(l << 3) + (e << 2) + ((p >> 4) & 3)\<close> with \<open>l\<close> and \<open>e\<close> in
  \<open>{0, 1}\<close>, so it lies in the table for every input (lemma
  \<open>ire_index_range\<close>).
\<close>

definition square_sample :: "(int \<Rightarrow> int) \<Rightarrow> int \<Rightarrow> int \<Rightarrow> int" where
  "square_sample m p phase =
     (let hue = p AND 15 in
      if hue \<ge> 14 then 0
      else
        let v = (if c_mod (add32 hue phase) 12 < 6 then 1 else 0 :: int);
            e = (if (p AND 448) AND active_at m (c_mod (drop_bit 1 phase) 6) > 0 then 1 else 0 :: int);
            l = (if hue = 0 then 1 else if hue = 13 then 0 else v)
        in IRE ! nat (push_bit 3 l + push_bit 2 e + (drop_bit 4 p AND 3)))"

text \<open>The emphasis bit \<open>e\<close> that \<open>square_sample\<close> computes.\<close>

definition src_emphasis :: "(int \<Rightarrow> int) \<Rightarrow> int \<Rightarrow> int \<Rightarrow> int" where
  "src_emphasis m p phase =
     (if (p AND 448) AND active_at m (c_mod (drop_bit 1 phase) 6) > 0 then 1 else 0)"

text \<open>
  The emphasis colours as the comment in \<open>square_sample\<close> names them:
  red 0200, green 0100, blue 0400.
\<close>

definition emph_red :: int where "emph_red = 128"
definition emph_green :: int where "emph_green = 64"
definition emph_blue :: int where "emph_blue = 256"

text \<open>
  The description of the modulator in the specification, for comparison with
  \<open>square_sample\<close>: the polarity \<open>(hue + phase) mod 12 < 6\<close>, the
  emphasis test against a six-entry rotation through red, green and blue
  selected by \<open>(phase >> 1) mod 6\<close>, the two luma bits, and the table index
  \<open>(l << 3) | (e << 2) | luma\<close>. Here \<open>mod\<close> is the mathematical one.
\<close>

definition emphasis_rotation :: "int list" where
  "emphasis_rotation =
     [emph_red OR emph_green, emph_red, emph_red OR emph_blue,
      emph_blue, emph_blue OR emph_green, emph_green]"

definition spec_polarity :: "int \<Rightarrow> int \<Rightarrow> int" where
  "spec_polarity p phase = (if ((p AND 15) + phase) mod 12 < 6 then 1 else 0)"

definition spec_emphasis :: "int \<Rightarrow> int \<Rightarrow> int" where
  "spec_emphasis p phase =
     (if (p AND 448) AND (emphasis_rotation ! nat (drop_bit 1 phase mod 6)) \<noteq> 0 then 1 else 0)"

definition spec_luma :: "int \<Rightarrow> int" where
  "spec_luma p = drop_bit 4 p AND 3"

definition spec_voltage :: "int \<Rightarrow> int \<Rightarrow> int \<Rightarrow> int" where
  "spec_voltage l e lu = IRE ! nat (push_bit 3 l OR push_bit 2 e OR lu)"

section \<open>The constants of \<open>pal_core.h\<close>\<close>

text \<open>
  \<open>pal_nes.c\<close> includes \<open>pal_core.h\<close>, which is not part of the sources
  at hand. Every macro of that header used by the code, and the helper
  \<open>pal_sincos14\<close> (here yielding the pair of sine and cosine it stores
  through its two pointers), is a field of the following record, so the
  model is parametric in them. The last field is what the memory next to
  the table \<open>active\<close> holds in the running program.
\<close>

record pal_core =
  PAL_HRES :: int
  PAL_VRES :: int
  PAL_TOP :: int
  PAL_LINES :: int
  PAL_CB_FREQ :: int
  CB_CYCLES :: int
  LINE_BEG :: int
  SYNC_BEG :: int
  BW_BEG :: int
  CB_BEG :: int
  AV_BEG :: int
  AV_LEN :: int
  WHITE_LEVEL :: int
  BURST_LEVEL :: int
  BLACK_LEVEL :: int
  BLANK_LEVEL :: int
  SYNC_LEVEL :: int
  pal_sincos14 :: "int \<Rightarrow> int \<times> int"
  beyond_active :: "int \<Rightarrow> int"

text \<open>
  The fields of \<open>struct PAL_CRT\<close> and \<open>struct PAL_SETTINGS\<close> that the
  code touches. The sample buffer \<open>analog\<close> and the pixel buffer
  \<open>data\<close> are owned by the caller; they are modelled as stores from
  offsets to values. \<open>analog\<close> holds \<open>signed char\<close>. The pixel
  buffer proper is \<open>data[0 .. w * h - 1]\<close>; \<open>data s i\<close> for another
  \<open>i\<close> is what the memory around the buffer holds.
\<close>

record PAL_CRT =
  analog :: "int \<Rightarrow> schar"
  ccf :: "int \<times> int \<Rightarrow> int"
  cc_period :: int
  black_point :: int
  white_point :: int

record PAL_SETTINGS =
  data :: "int \<Rightarrow> int"
  w :: int
  h :: int
  hue :: int
  field_initialized :: bool

section \<open>The field timing generator: \<open>setup_field\<close>\<close>

text \<open>
  \<open>while (t < lim) line[t++] = val;\<close> with \<open>line = &analog[base]\<close>.
  The result is the store and the final \<open>t\<close>.
\<close>

function fill :: "(int \<Rightarrow> schar) \<Rightarrow> int \<Rightarrow> int \<Rightarrow> int \<Rightarrow> int \<Rightarrow> (int \<Rightarrow> schar) \<times> int" where
  "fill a base t lim val =
     (if t < lim then fill (a(base + t := to_schar val)) base (t + 1) lim val else (a, t))"
  by pat_completeness auto
termination
  by (relation "measure (\<lambda>(a, base, t, lim, val). nat (lim - t))") auto

declare fill.simps [simp del]

text \<open>The body of the loop over \<open>n\<close> in \<open>setup_field\<close>.\<close>

definition setup_line :: "pal_core \<Rightarrow> (int \<Rightarrow> schar) \<Rightarrow> int \<Rightarrow> int \<Rightarrow> schar" where
  "setup_line c a n =
     (let base = n * PAL_HRES c;
          t = LINE_BEG c
      in if n \<le> 3 \<or> (n \<ge> 7 \<and> n \<le> 9) then
           (let (a, t) = fill a base t (c_div (4 * PAL_HRES c) 100) (SYNC_LEVEL c);
                (a, t) = fill a base t (c_div (50 * PAL_HRES c) 100) (BLANK_LEVEL c);
                (a, t) = fill a base t (c_div (54 * PAL_HRES c) 100) (SYNC_LEVEL c);
                (a, t) = fill a base t (c_div (100 * PAL_HRES c) 100) (BLANK_LEVEL c)
            in a)
         else if n \<ge> 4 \<and> n \<le> 6 then
           (let (a, t) = fill a base t (c_div (46 * PAL_HRES c) 100) (SYNC_LEVEL c);
                (a, t) = fill a base t (c_div (50 * PAL_HRES c) 100) (BLANK_LEVEL c);
                (a, t) = fill a base t (c_div (96 * PAL_HRES c) 100) (SYNC_LEVEL c);
                (a, t) = fill a base t (c_div (100 * PAL_HRES c) 100) (BLANK_LEVEL c)
            in a)
         else
           (let (a, t) = fill a base t (SYNC_BEG c) (BLANK_LEVEL c);
                (a, t) = fill a base t (BW_BEG c) (SYNC_LEVEL c);
                (a, t) = fill a base t (PAL_HRES c) (BLANK_LEVEL c)
            in a))"

function setup_lines :: "pal_core \<Rightarrow> (int \<Rightarrow> schar) \<Rightarrow> int \<Rightarrow> int \<Rightarrow> schar" where
  "setup_lines c a n =
     (if n < PAL_VRES c then setup_lines c (setup_line c a n) (n + 1) else a)"
  by pat_completeness auto
termination
  by (relation "measure (\<lambda>(c, a, n). nat (PAL_VRES c - n))") auto

declare setup_lines.simps [simp del]

definition setup_field :: "pal_core \<Rightarrow> PAL_CRT \<Rightarrow> PAL_CRT" where
  "setup_field c v = v\<lparr>analog := setup_lines c (analog v) 0\<rparr>"

section \<open>The line composer: \<open>pal_modulate\<close>\<close>

text \<open>
  The tables \<open>bsign[6]\<close> and \<open>ccburst[6][4]\<close> as the first loop nest of
  \<open>pal_modulate\<close> leaves them. These are local tables that the code fills
  itself; an index outside a table has no entry (\<open>None\<close>).
\<close>

definition bsign :: "int \<Rightarrow> int option" where
  "bsign y = (if 0 \<le> y \<and> y < 6 then Some (if y AND 1 \<noteq> 0 then - 1 else 1) else None)"

definition ccburst :: "pal_core \<Rightarrow> int \<Rightarrow> int \<Rightarrow> int \<Rightarrow> int option" where
  "ccburst c hu y x =
     (if 0 \<le> y \<and> y < 6 \<and> 0 \<le> x \<and> x < 4 then
        (let vert = y * c_div 360 6;
             bs = (if y AND 1 \<noteq> 0 then - 1 else 1);
             n = vert + hu + x * 90 + 135;
             (sn, cs) = pal_sincos14 c (c_div ((n + bs * 60) * 8192) 180)
         in Some (drop_bit 10 sn))
      else None)"

text \<open>
  The burst loop of one line. \<open>iccf\<close> is the local table \<open>iccf[6][4]\<close>,
  which starts without contents; an entry is present once it was assigned.
\<close>

function burst_loop ::
  "pal_core \<Rightarrow> int \<Rightarrow> int \<Rightarrow> int \<Rightarrow> int \<Rightarrow> (int \<Rightarrow> schar) \<Rightarrow> (int \<times> int \<rightharpoonup> int)
     \<Rightarrow> ((int \<Rightarrow> schar) \<times> (int \<times> int \<rightharpoonup> int)) option" where
  "burst_loop c hu n base t a iccf =
     (if t < CB_BEG c + CB_CYCLES c * PAL_CB_FREQ c then
        (case ccburst c hu (c_mod n 6) (t AND 3) of
           None \<Rightarrow> None
         | Some cb \<Rightarrow>
             (let a' = a(base + t := to_schar (drop_bit 5 (BLANK_LEVEL c + cb * BURST_LEVEL c)));
                  iccf' = iccf((c_mod n 6, t AND 3) \<mapsto> sint (a' (base + t)))
              in burst_loop c hu n base (t + 1) a' iccf'))
      else Some (a, iccf))"
  by pat_completeness auto
termination
  by (relation "measure (\<lambda>(c, hu, n, base, t, a, iccf).
        nat (CB_BEG c + CB_CYCLES c * PAL_CB_FREQ c - t))") auto

declare burst_loop.simps [simp del]

text \<open>
  The value of one active-video sample: the statements from
  \<open>ire = BLACK_LEVEL + v->black_point\<close> to
  \<open>ire = ((ire * v->white_point / 110) >> 12)\<close>.
\<close>

definition ire_sample :: "pal_core \<Rightarrow> PAL_CRT \<Rightarrow> int \<Rightarrow> int \<Rightarrow> int" where
  "ire_sample c v p phase =
     (let ire = add32 (BLACK_LEVEL c) (black_point v);
          ire = add32 ire (square_sample (beyond_active c) p (add32 phase 0));
          ire = add32 ire (square_sample (beyond_active c) p (add32 phase 1));
          ire = add32 ire (square_sample (beyond_active c) p (add32 phase 2));
          ire = add32 ire (square_sample (beyond_active c) p (add32 phase 3))
      in drop_bit 12 (c_div (mul32 ire (white_point v)) 110))"

text \<open>The loop over the destination columns \<open>x\<close> of one line.\<close>

function av_loop ::
  "pal_core \<Rightarrow> PAL_CRT \<Rightarrow> PAL_SETTINGS \<Rightarrow> int \<Rightarrow> int \<Rightarrow> int \<Rightarrow> int \<Rightarrow> int \<Rightarrow> int
     \<Rightarrow> (int \<Rightarrow> schar) \<Rightarrow> (int \<Rightarrow> schar)" where
  "av_loop c v s xo yo y sy x phase a =
     (if x < AV_LEN c then
        (let p = data s (add32 (c_div (mul32 x (w s)) (AV_LEN c)) sy);
             ire = ire_sample c v p phase
         in av_loop c v s xo yo y sy (x + 1) (add32 phase 3)
              (a((x + xo) + (y + yo) * PAL_HRES c := to_schar ire)))
      else a)"
  by pat_completeness auto
termination
  by (relation "measure (\<lambda>(c, v, s, xo, yo, y, sy, x, phase, a). nat (AV_LEN c - x))") auto

declare av_loop.simps [simp del]

text \<open>The source row of output line \<open>y\<close>, with its two clamps.\<close>

definition src_row :: "pal_core \<Rightarrow> PAL_SETTINGS \<Rightarrow> int \<Rightarrow> int" where
  "src_row c s y =
     (let sy = c_div (mul32 y (h s)) (PAL_LINES c);
          sy = (if sy \<ge> h s then h s else sy);
          sy = (if sy < 0 then 0 else sy)
      in sy)"

text \<open>The body of the loop over the output lines \<open>y\<close>.\<close>

definition line_body ::
  "pal_core \<Rightarrow> PAL_CRT \<Rightarrow> PAL_SETTINGS \<Rightarrow> int \<Rightarrow> int \<Rightarrow> int \<Rightarrow> (int \<Rightarrow> schar) \<Rightarrow> (int \<times> int \<rightharpoonup> int)
     \<Rightarrow> ((int \<Rightarrow> schar) \<times> (int \<times> int \<rightharpoonup> int)) option" where
  "line_body c v s xo yo y a iccf =
     (let sy = src_row c s y;
          n = y + yo;
          base = n * PAL_HRES c;
          a = fst (fill a base (BW_BEG c) (CB_BEG c) (SYNC_LEVEL c))
      in case burst_loop c (hue s) n base (CB_BEG c) a iccf of
           None \<Rightarrow> None
         | Some (a, iccf) \<Rightarrow>
             (let sy = mul32 sy (w s);
                  phase = c_mod n 12 * 2
              in case bsign (c_mod n 6) of
                   None \<Rightarrow> None
                 | Some b \<Rightarrow>
                     (let phase = phase + (if b = 1 then 6 else 0)
                      in Some (av_loop c v s xo yo y sy 0 phase a, iccf))))"

function line_loop ::
  "pal_core \<Rightarrow> PAL_CRT \<Rightarrow> PAL_SETTINGS \<Rightarrow> int \<Rightarrow> int \<Rightarrow> int \<Rightarrow> (int \<Rightarrow> schar) \<Rightarrow> (int \<times> int \<rightharpoonup> int)
     \<Rightarrow> ((int \<Rightarrow> schar) \<times> (int \<times> int \<rightharpoonup> int)) option" where
  "line_loop c v s xo yo y a iccf =
     (if y < PAL_LINES c then
        (case line_body c v s xo yo y a iccf of
           None \<Rightarrow> None
         | Some (a, iccf) \<Rightarrow> line_loop c v s xo yo (y + 1) a iccf)
      else Some (a, iccf))"
  by pat_completeness auto
termination
  by (relation "measure (\<lambda>(c, v, s, xo, yo, y, a, iccf). nat (PAL_LINES c - y))") auto

declare line_loop.simps [simp del]

text \<open>
  The final loop nest, \<open>v->ccf[n][x] = iccf[n][x] << 7\<close> for \<open>x < 4\<close>
  and \<open>n < 6\<close>. Reading an entry of \<open>iccf\<close> that was never assigned has
  no defined result.
\<close>

definition ccf_cells :: "(int \<times> int) list" where
  "ccf_cells = [(n, x). x \<leftarrow> [0, 1, 2, 3], n \<leftarrow> [0, 1, 2, 3, 4, 5]]"

definition ccf_copy :: "(int \<times> int \<rightharpoonup> int) \<Rightarrow> (int \<times> int \<Rightarrow> int) \<Rightarrow> (int \<times> int \<Rightarrow> int) option" where
  "ccf_copy iccf old =
     (if list_all (\<lambda>k. iccf k \<noteq> None) ccf_cells
      then Some (\<lambda>k. if k \<in> set ccf_cells then push_bit 7 (the (iccf k)) else old k)
      else None)"

text \<open>
  \<open>pal_modulate\<close>. The result is \<open>None\<close> when the run reads an entry of
  one of its local tables that does not exist or was never assigned;
  otherwise it is the pair of the updated structures.
\<close>

definition pal_modulate :: "pal_core \<Rightarrow> PAL_CRT \<Rightarrow> PAL_SETTINGS \<Rightarrow> (PAL_CRT \<times> PAL_SETTINGS) option" where
  "pal_modulate c v s =
     (let (v, s) = (if \<not> field_initialized s
                    then (setup_field c v, s\<lparr>field_initialized := True\<rparr>)
                    else (v, s));
          xo = AV_BEG c;
          yo = PAL_TOP c;
          xo = xo AND NOT 3
      in case line_loop c v s xo yo 0 (analog v) Map.empty of
           None \<Rightarrow> None
         | Some (a, iccf) \<Rightarrow>
             (case ccf_copy iccf (ccf v) of
                None \<Rightarrow> None
              | Some tab \<Rightarrow> Some (v\<lparr>analog := a, ccf := tab, cc_period := 6\<rparr>, s)))"

section \<open>Well-formed constants and a sample configuration\<close>

text \<open>
  What the code relies on in the constants of the header: the line starts at
  sample 0 and the front porch, the sync pulse and the rest follow each other
  inside the line (\<open>timing_ok\<close>); the sync-to-burst window, the burst window
  and the aligned active window follow each other inside the line, the
  active lines lie inside the field, the burst window has at least four
  samples and there are at least six active lines (\<open>core_ok\<close>).
\<close>

definition timing_ok :: "pal_core \<Rightarrow> bool" where
  "timing_ok c \<longleftrightarrow>
     0 < PAL_HRES c \<and> LINE_BEG c = 0 \<and> 0 \<le> SYNC_BEG c \<and>
     SYNC_BEG c \<le> BW_BEG c \<and> BW_BEG c \<le> PAL_HRES c"

definition core_ok :: "pal_core \<Rightarrow> bool" where
  "core_ok c \<longleftrightarrow>
     timing_ok c \<and> BW_BEG c \<le> CB_BEG c \<and>
     4 \<le> CB_CYCLES c * PAL_CB_FREQ c \<and>
     CB_BEG c + CB_CYCLES c * PAL_CB_FREQ c \<le> (AV_BEG c AND NOT 3) \<and>
     0 < AV_LEN c \<and> (AV_BEG c AND NOT 3) + AV_LEN c \<le> PAL_HRES c \<and>
     0 \<le> PAL_TOP c \<and> 6 \<le> PAL_LINES c \<and> PAL_TOP c + PAL_LINES c \<le> PAL_VRES c"

text \<open>
  A concrete configuration for the closed examples: a field of 312 lines of
  400 samples with a 282-sample active window, levels in IRE units with
  white at 100, and a triangle wave of amplitude \<open>2^15\<close> and period
  \<open>2^14\<close> standing in for \<open>pal_sincos14\<close>. The general theorems do not
  depend on it.
\<close>

definition tri14 :: "int \<Rightarrow> int" where
  "tri14 a =
     (let m = a mod 16384
      in if m < 4096 then 8 * m else if m < 12288 then 8 * (8192 - m) else 8 * (m - 16384))"

definition sample_core :: pal_core where
  "sample_core =
     \<lparr>PAL_HRES = 400, PAL_VRES = 312, PAL_TOP = 21, PAL_LINES = 290,
      PAL_CB_FREQ = 4, CB_CYCLES = 10,
      LINE_BEG = 0, SYNC_BEG = 10, BW_BEG = 39, CB_BEG = 45, AV_BEG = 98, AV_LEN = 282,
      WHITE_LEVEL = 100, BURST_LEVEL = 20, BLACK_LEVEL = 0, BLANK_LEVEL = 0, SYNC_LEVEL = - 37,
      pal_sincos14 = (\<lambda>a. (tri14 a, tri14 (a + 4096))),
      beyond_active = (\<lambda>i. 83721)\<rparr>"

text \<open>A 256 by 240 source frame filled with one pixel code.\<close>

definition flat_frame :: "int \<Rightarrow> PAL_SETTINGS" where
  "flat_frame p = \<lparr>data = (\<lambda>i. p), w = 256, h = 240, hue = 0, field_initialized = False\<rparr>"

text \<open>
  Two oversized sources: one row of 15300000 pixels, and one column of
  8000000 pixels. The pixel buffer holds code 0; the memory around it holds
  code 48.
\<close>

definition wide_frame :: PAL_SETTINGS where
  "wide_frame =
     \<lparr>data = (\<lambda>i. if 0 \<le> i \<and> i < 15300000 then 0 else 48), w = 15300000, h = 1, hue = 0,
      field_initialized = False\<rparr>"

definition tall_frame :: PAL_SETTINGS where
  "tall_frame =
     \<lparr>data = (\<lambda>i. if 0 \<le> i \<and> i < 8000000 then 0 else 48), w = 1, h = 8000000, hue = 0,
      field_initialized = False\<rparr>"

section \<open>The line categories of the field timing, as the specification describes them\<close>

text \<open>
  Lines 0..3 and 7..9 are equalizing lines, lines 4..6 are vertical-sync
  lines, every other line is an ordinary scanline. \<open>percent c k\<close> is
  \<open>k\<close> percent of the line width. \<open>waveform\<close> gives the level of sample
  \<open>t\<close> of a line of each category; \<open>pulse_count lev line len\<close> counts the
  maximal runs of level \<open>lev\<close> among the first \<open>len\<close> samples of a line;
  \<open>field_line c a n\<close> is \<open>&a[n * PAL_HRES]\<close>.
\<close>

datatype line_kind = Equalizing | VerticalSync | Scanline

definition line_kind_of :: "int \<Rightarrow> line_kind" where
  "line_kind_of n =
     (if n \<le> 3 \<or> (7 \<le> n \<and> n \<le> 9) then Equalizing
      else if 4 \<le> n \<and> n \<le> 6 then VerticalSync else Scanline)"

definition percent :: "pal_core \<Rightarrow> int \<Rightarrow> int" where
  "percent c k = (k * PAL_HRES c) div 100"

definition waveform :: "pal_core \<Rightarrow> line_kind \<Rightarrow> int \<Rightarrow> int" where
  "waveform c k t =
     (case k of
        Equalizing \<Rightarrow>
          (if (percent c 0 \<le> t \<and> t < percent c 4) \<or> (percent c 50 \<le> t \<and> t < percent c 54)
           then SYNC_LEVEL c else BLANK_LEVEL c)
      | VerticalSync \<Rightarrow>
          (if (percent c 46 \<le> t \<and> t < percent c 50) \<or> (percent c 96 \<le> t \<and> t < percent c 100)
           then BLANK_LEVEL c else SYNC_LEVEL c)
      | Scanline \<Rightarrow>
          (if SYNC_BEG c \<le> t \<and> t < BW_BEG c then SYNC_LEVEL c else BLANK_LEVEL c))"

definition pulse_count :: "schar \<Rightarrow> (int \<Rightarrow> schar) \<Rightarrow> int \<Rightarrow> nat" where
  "pulse_count lev line len =
     card {t \<in> {0..<len}. line t = lev \<and> (t + 1 = len \<or> line (t + 1) \<noteq> lev)}"

definition field_line :: "pal_core \<Rightarrow> (int \<Rightarrow> schar) \<Rightarrow> int \<Rightarrow> int \<Rightarrow> schar" where
  "field_line c a n t = a (n * PAL_HRES c + t)"

text \<open>
  A \<open>struct PAL_CRT\<close> with a zeroed buffer, no black-point offset and a
  white point of 100.
\<close>

definition fresh_crt :: PAL_CRT where
  "fresh_crt = \<lparr>analog = (\<lambda>i. 0), ccf = (\<lambda>k. 0), cc_period = 0, black_point = 0, white_point = 100\<rparr>"

text \<open>The same with the white point raised to 110.\<close>

definition bright_crt :: PAL_CRT where
  "bright_crt = fresh_crt\<lparr>white_point := 110\<rparr>"

section \<open>The encoded field, sample by sample\<close>

text \<open>
  What one run of \<open>pal_modulate\<close> leaves in each sample, written without
  loops: \<open>square_value\<close> is the table entry the specification describes,
  \<open>burst_amp\<close> the entry of \<open>ccburst\<close>, \<open>burst_sample\<close> the sample
  written in the burst window, \<open>burst_end\<close> the end of that window,
  \<open>av_start\<close> the aligned start \<open>AV_BEG & ~3\<close> of the active window,
  \<open>line_phase\<close> the phase at the start of absolute line \<open>n\<close>,
  \<open>fetch_index\<close> the index into \<open>data\<close> that the code computes for
  output line \<open>y\<close> and column \<open>x\<close>, \<open>av_pixel\<close> the pixel fetched
  there. \<open>line_sample\<close> is sample \<open>t\<close> of output line \<open>y\<close>, and
  \<open>encoded\<close> the whole buffer, in terms of the buffer \<open>a\<close> before the
  line loop. \<open>rewritten c i\<close> tells whether offset \<open>i\<close> lies in one of
  the three windows the line loop writes. The lemmas below prove that the
  loops compute them.
\<close>

definition square_value :: "int \<Rightarrow> int \<Rightarrow> int" where
  "square_value p phase =
     (if 14 \<le> p AND 15 then 0
      else spec_voltage
             (if p AND 15 = 0 then 1 else if p AND 15 = 13 then 0 else spec_polarity p phase)
             (spec_emphasis p phase) (spec_luma p))"

definition burst_amp :: "pal_core \<Rightarrow> int \<Rightarrow> int \<Rightarrow> int \<Rightarrow> int" where
  "burst_amp c hu g q =
     drop_bit 10 (fst (pal_sincos14 c
       (c_div ((g * c_div 360 6 + hu + q * 90 + 135 + (if g AND 1 \<noteq> 0 then - 1 else 1) * 60) * 8192) 180)))"

definition burst_sample :: "pal_core \<Rightarrow> int \<Rightarrow> int \<Rightarrow> int \<Rightarrow> schar" where
  "burst_sample c hu g q = to_schar (drop_bit 5 (BLANK_LEVEL c + burst_amp c hu g q * BURST_LEVEL c))"

definition burst_end :: "pal_core \<Rightarrow> int" where
  "burst_end c = CB_BEG c + CB_CYCLES c * PAL_CB_FREQ c"

definition av_start :: "pal_core \<Rightarrow> int" where
  "av_start c = AV_BEG c AND NOT 3"

definition line_phase :: "int \<Rightarrow> int" where
  "line_phase n = (n mod 12) * 2 + (if even (n mod 6) then 6 else 0)"

definition fetch_index :: "pal_core \<Rightarrow> PAL_SETTINGS \<Rightarrow> int \<Rightarrow> int \<Rightarrow> int" where
  "fetch_index c s y x =
     add32 (c_div (mul32 x (w s)) (AV_LEN c)) (mul32 (src_row c s y) (w s))"

definition av_pixel :: "pal_core \<Rightarrow> PAL_SETTINGS \<Rightarrow> int \<Rightarrow> int \<Rightarrow> int" where
  "av_pixel c s y x = data s (fetch_index c s y x)"

definition line_sample :: "pal_core \<Rightarrow> PAL_CRT \<Rightarrow> PAL_SETTINGS \<Rightarrow> int \<Rightarrow> int \<Rightarrow> schar \<Rightarrow> schar" where
  "line_sample c v s y t old =
     (if av_start c \<le> t \<and> t < av_start c + AV_LEN c
      then to_schar (ire_sample c v (av_pixel c s y (t - av_start c))
                       (wrap32 (line_phase (y + PAL_TOP c) + 3 * (t - av_start c))))
      else if CB_BEG c \<le> t \<and> t < burst_end c
      then burst_sample c (hue s) ((y + PAL_TOP c) mod 6) (t AND 3)
      else if BW_BEG c \<le> t \<and> t < CB_BEG c then to_schar (SYNC_LEVEL c)
      else old)"

definition encoded :: "pal_core \<Rightarrow> PAL_CRT \<Rightarrow> PAL_SETTINGS \<Rightarrow> (int \<Rightarrow> schar) \<Rightarrow> int \<Rightarrow> schar" where
  "encoded c v s a i =
     (if 0 \<le> i div PAL_HRES c - PAL_TOP c \<and> i div PAL_HRES c - PAL_TOP c < PAL_LINES c
      then line_sample c v s (i div PAL_HRES c - PAL_TOP c) (i mod PAL_HRES c) (a i)
      else a i)"

definition rewritten :: "pal_core \<Rightarrow> int \<Rightarrow> bool" where
  "rewritten c i \<longleftrightarrow>
     0 \<le> i div PAL_HRES c - PAL_TOP c \<and> i div PAL_HRES c - PAL_TOP c < PAL_LINES c \<and>
     ((BW_BEG c \<le> i mod PAL_HRES c \<and> i mod PAL_HRES c < CB_BEG c) \<or>
      (CB_BEG c \<le> i mod PAL_HRES c \<and> i mod PAL_HRES c < burst_end c) \<or>
      (av_start c \<le> i mod PAL_HRES c \<and> i mod PAL_HRES c < av_start c + AV_LEN c))"

section \<open>Reading the result of \<open>pal_modulate\<close>\<close>

text \<open>
  Accessors for the outputs of a run (a sample of the buffer, an entry of the
  exposed calibration table \<open>ccf\<close>, the exposed \<open>cc_period\<close>), two calls
  in succession on the structures the first call left, the offset
  \<open>(x + xo) + (y + yo) * PAL_HRES\<close> the column loop writes to, and the
  buffer the line loop starts from (the output of \<open>setup_field\<close> unless
  the field was initialized before).
\<close>

definition out_sample :: "(PAL_CRT \<times> PAL_SETTINGS) option \<Rightarrow> int \<Rightarrow> schar option" where
  "out_sample r i = (case r of None \<Rightarrow> None | Some (v, s) \<Rightarrow> Some (analog v i))"

definition out_ccf :: "(PAL_CRT \<times> PAL_SETTINGS) option \<Rightarrow> int \<times> int \<Rightarrow> int option" where
  "out_ccf r k = (case r of None \<Rightarrow> None | Some (v, s) \<Rightarrow> Some (ccf v k))"

definition out_period :: "(PAL_CRT \<times> PAL_SETTINGS) option \<Rightarrow> int option" where
  "out_period r = (case r of None \<Rightarrow> None | Some (v, s) \<Rightarrow> Some (cc_period v))"

definition pal_modulate_twice :: "pal_core \<Rightarrow> PAL_CRT \<Rightarrow> PAL_SETTINGS \<Rightarrow> (PAL_CRT \<times> PAL_SETTINGS) option" where
  "pal_modulate_twice c v s =
     (case pal_modulate c v s of None \<Rightarrow> None | Some (v1, s1) \<Rightarrow> pal_modulate c v1 s1)"

text \<open>
  A second call on the structures the first call left, after the buffer
  alone has been replaced by \<open>b\<close>.
\<close>

definition pal_modulate_refilled ::
  "pal_core \<Rightarrow> PAL_CRT \<Rightarrow> PAL_SETTINGS \<Rightarrow> (int \<Rightarrow> schar) \<Rightarrow> (PAL_CRT \<times> PAL_SETTINGS) option" where
  "pal_modulate_refilled c v s b =
     (case pal_modulate c v s of None \<Rightarrow> None
      | Some (v1, s1) \<Rightarrow> pal_modulate c (v1\<lparr>analog := b\<rparr>) s1)"

definition av_index :: "pal_core \<Rightarrow> int \<Rightarrow> int \<Rightarrow> int" where
  "av_index c y x = (x + av_start c) + (y + PAL_TOP c) * PAL_HRES c"

definition start_buffer :: "pal_core \<Rightarrow> PAL_CRT \<Rightarrow> PAL_SETTINGS \<Rightarrow> int \<Rightarrow> schar" where
  "start_buffer c v s = (if field_initialized s then analog v else analog (setup_field c v))"

section \<open>Signal levels\<close>

text \<open>
  \<open>level_ok c b\<close>: the sample \<open>b\<close> lies in \<open>[SYNC_LEVEL, WHITE_LEVEL]\<close>.
  \<open>levels_ok c\<close>: the levels of the header are ordered, fit a
  \<open>signed char\<close>, and a burst of full amplitude stays between sync and
  white.
\<close>

definition level_ok :: "pal_core \<Rightarrow> schar \<Rightarrow> bool" where
  "level_ok c b \<longleftrightarrow> SYNC_LEVEL c \<le> sint b \<and> sint b \<le> WHITE_LEVEL c"

definition levels_ok :: "pal_core \<Rightarrow> bool" where
  "levels_ok c \<longleftrightarrow>
     - 128 \<le> SYNC_LEVEL c \<and> SYNC_LEVEL c \<le> BLANK_LEVEL c \<and> BLANK_LEVEL c \<le> WHITE_LEVEL c \<and>
     WHITE_LEVEL c \<le> 127 \<and> 0 \<le> BURST_LEVEL c \<and>
     SYNC_LEVEL c \<le> drop_bit 5 (BLANK_LEVEL c - 32 * BURST_LEVEL c) \<and>
     drop_bit 5 (BLANK_LEVEL c + 32 * BURST_LEVEL c) \<le> WHITE_LEVEL c"

section \<open>Intermediate values of the pixel modulation\<close>

text \<open>
  The values the modulation path computes on the way: inside
  \<open>square_sample\<close> for one phase (\<open>square_steps\<close>; the emphasis bit
  is given by \<open>spec_emphasis\<close>), and from
  \<open>ire = BLACK_LEVEL + v->black_point\<close> through the four additions, the
  product with the white point and the division by 110 to the shift by 12
  (\<open>ire_steps\<close>). They are computed without wrap-around: where all of
  them fit 32 bits, they are the values of the \<open>int\<close> variables.
\<close>

definition square_steps :: "int \<Rightarrow> int \<Rightarrow> int list" where
  "square_steps p phase =
     (let hue = p AND 15;
          v = (if c_mod (hue + phase) 12 < 6 then 1 else 0);
          e = spec_emphasis p phase;
          l = (if hue = 0 then 1 else if hue = 13 then 0 else v)
      in [hue, hue + phase, c_mod (hue + phase) 12, drop_bit 1 phase, c_mod (drop_bit 1 phase) 6,
          p AND 448, drop_bit 4 p, drop_bit 4 p AND 3, push_bit 3 l, push_bit 2 e,
          push_bit 3 l + push_bit 2 e, push_bit 3 l + push_bit 2 e + (drop_bit 4 p AND 3)])"

definition ire_steps :: "pal_core \<Rightarrow> PAL_CRT \<Rightarrow> int \<Rightarrow> int \<Rightarrow> int \<Rightarrow> int \<Rightarrow> int list" where
  "ire_steps c v s0 s1 s2 s3 =
     (let i0 = BLACK_LEVEL c + black_point v;
          i1 = i0 + s0;
          i2 = i1 + s1;
          i3 = i2 + s2;
          i4 = i3 + s3;
          m = i4 * white_point v;
          d = c_div m 110
      in [i0, i1, i2, i3, i4, m, d, drop_bit 12 d])"

section \<open>Basic facts\<close>

lemma c_div_nonneg: "0 \<le> a \<Longrightarrow> 0 \<le> b \<Longrightarrow> c_div a b = a div b"
  by (cases "a = 0"; cases "b = 0") (simp_all add: c_div_def)

lemma c_mod_nonneg: "0 \<le> a \<Longrightarrow> 0 \<le> b \<Longrightarrow> c_mod a b = a mod b"
  by (simp add: c_mod_def c_div_nonneg minus_mult_div_eq_mod)

lemma wrap32_id: "in_int32 x \<Longrightarrow> wrap32 x = x"
  by (simp add: in_int32_def wrap32_def)

lemma wrap32_in: "in_int32 (wrap32 x)"
proof -
  have "0 \<le> (x + 2147483648) mod 4294967296" "(x + 2147483648) mod 4294967296 < 4294967296"
    by simp_all
  then show ?thesis by (simp add: in_int32_def wrap32_def)
qed

lemma wrap32_add_left: "wrap32 (wrap32 a + b) = wrap32 (a + b)"
proof -
  have "(wrap32 a + b + 2147483648) mod 4294967296 =
      ((a + 2147483648) mod 4294967296 + b) mod 4294967296"
    by (simp add: wrap32_def)
  also have "\<dots> = (a + 2147483648 + b) mod 4294967296"
    by (simp add: mod_add_left_eq)
  finally have "(wrap32 a + b + 2147483648) mod 4294967296 =
      (a + b + 2147483648) mod 4294967296"
    by (simp only: add.assoc add.commute [of 2147483648 b])
  then show ?thesis unfolding wrap32_def [of "wrap32 a + b"] wrap32_def [of "a + b"] by simp
qed

lemma add32_id: "in_int32 (a + b) \<Longrightarrow> add32 a b = a + b"
  by (simp add: add32_def wrap32_id)

lemma mul32_id: "in_int32 (a * b) \<Longrightarrow> mul32 a b = a * b"
  by (simp add: mul32_def wrap32_id)

lemma hue_range: "0 \<le> (p::int) AND 15 \<and> p AND 15 \<le> 15"
  by (simp add: AND_upper2')

lemma luma_range: "0 \<le> (q::int) AND 3 \<and> q AND 3 \<le> 3"
  by (simp add: AND_upper2')

lemma active_index: "0 \<le> phase \<Longrightarrow>
  active_at m (c_mod (drop_bit 1 phase) 6) = active ! nat (drop_bit 1 phase mod 6)"
  by (simp add: active_at_def c_mod_nonneg drop_bit_eq_div)

lemma active_rotation: "active = emphasis_rotation"
  by (simp add: active_def emphasis_rotation_def emph_red_def emph_green_def emph_blue_def)

lemma rot_nonneg: "0 \<le> k \<Longrightarrow> k < 6 \<Longrightarrow> 0 \<le> active ! nat k"
proof -
  assume "0 \<le> k" "k < 6"
  then have "k \<in> {0,1,2,3,4,5}" by auto
  then show ?thesis by (auto simp: active_def)
qed

lemma ire_index_or:
  assumes "l \<in> {0,1}" "e \<in> {0,1}" "0 \<le> lu" "lu \<le> 3"
  shows "push_bit 3 l + push_bit 2 e + lu = push_bit 3 l OR push_bit 2 e OR (lu::int)"
proof -
  from assms have "lu \<in> {0,1,2,3}" by auto
  with assms(1,2) show ?thesis by auto
qed

lemma ire_index_range:
  assumes "l \<in> {0,1}" "e \<in> {0,1}" "0 \<le> lu" "lu \<le> 3"
  shows "0 \<le> push_bit 3 l + push_bit 2 e + (lu::int) \<and> push_bit 3 l + push_bit 2 e + lu < 16"
  using assms by (auto simp: push_bit_eq_mult)

lemma src_emphasis_01: "src_emphasis m p phase = 0 \<or> src_emphasis m p phase = 1"
  by (simp add: src_emphasis_def)

lemma src_emphasis_spec: "0 \<le> phase \<Longrightarrow> src_emphasis m p phase = spec_emphasis p phase"
proof -
  assume ph: "0 \<le> phase"
  let ?k = "drop_bit 1 phase mod 6"
  have k: "0 \<le> ?k" "?k < 6" by simp_all
  have act: "0 \<le> active ! nat ?k" using rot_nonneg [OF k] .
  have "(0 < (p AND 448) AND active ! nat ?k) = ((p AND 448) AND active ! nat ?k \<noteq> 0)"
    using act by (smt (verit) and_nonnegative_int_iff)
  then show ?thesis
    unfolding src_emphasis_def spec_emphasis_def active_index [OF ph] active_rotation [symmetric]
    by simp
qed

text \<open>
  The result of \<open>square_sample\<close> for a hue below 0x0E, in terms of the
  polarity index \<open>l\<close> and the emphasis bit the code computes.
\<close>

lemma square_sample_entry:
  assumes "p AND 15 < 14"
  shows "square_sample m p phase =
     spec_voltage
       (if p AND 15 = 0 then 1 else if p AND 15 = 13 then 0
        else if c_mod (add32 (p AND 15) phase) 12 < 6 then 1 else 0)
       (src_emphasis m p phase) (spec_luma p)"
proof -
  define l :: int where "l = (if p AND 15 = 0 then 1 else if p AND 15 = 13 then 0
        else if c_mod (add32 (p AND 15) phase) 12 < 6 then 1 else 0)"
  define e where "e = src_emphasis m p phase"
  have l01: "l \<in> {0,1}" by (simp add: l_def)
  have e01: "e \<in> {0,1}" using src_emphasis_01 [of m p phase] by (auto simp: e_def)
  have lu: "0 \<le> spec_luma p" "spec_luma p \<le> 3" using luma_range by (simp_all add: spec_luma_def)
  have "square_sample m p phase = IRE ! nat (push_bit 3 l + push_bit 2 e + spec_luma p)"
    using assms
    by (simp add: square_sample_def Let_def l_def e_def src_emphasis_def spec_luma_def)
  also have "\<dots> = spec_voltage l e (spec_luma p)"
    by (simp only: ire_index_or [OF l01 e01 lu] spec_voltage_def)
  finally show ?thesis by (simp only: l_def e_def)
qed

lemma polarity_spec:
  assumes "0 \<le> phase" "(p AND 15) + phase \<le> 2147483647"
  shows "(if c_mod (add32 (p AND 15) phase) 12 < 6 then 1 else 0) = spec_polarity p phase"
proof -
  have hp: "0 \<le> (p AND 15) + phase" using assms hue_range [of p] by simp
  then have "in_int32 ((p AND 15) + phase)" using assms(2) by (simp add: in_int32_def)
  then have "add32 (p AND 15) phase = (p AND 15) + phase" by (rule add32_id)
  then show ?thesis using hp by (simp add: spec_polarity_def c_mod_nonneg)
qed

lemma square_sample_value:
  assumes "0 \<le> phase" "phase \<le> 2147483632"
  shows "square_sample m p phase = square_value p phase"
proof (cases "14 \<le> p AND 15")
  case True
  then show ?thesis by (simp add: square_sample_def square_value_def)
next
  case False
  have "p AND 15 \<le> 15" using hue_range [of p] by simp
  then have "(p AND 15) + phase \<le> 2147483647" using assms(2) by linarith
  from polarity_spec [OF assms(1) this] False show ?thesis
    by (simp add: square_sample_entry square_value_def src_emphasis_spec [OF assms(1)])
qed

section \<open>Properties of \<open>square_sample\<close>\<close>

text \<open>
  C2. For a pixel code whose hue nibble lies in 0x01..0x0C and a non-negative
  phase for which the \<open>int\<close> sum \<open>hue + phase\<close> does not overflow
  (\<open>hue + phase \<le> 2147483647\<close>), \<open>square_sample\<close> returns the entry of the
  16-entry table at index \<open>(v << 3) | (e << 2) | luma\<close>, where \<open>v\<close> is
  the polarity \<open>(hue + phase) mod 12 < 6\<close>, \<open>e\<close> tells whether the
  emphasis bits (mask 0700) meet the entry \<open>(phase >> 1) mod 6\<close> of the
  rotation red+green, red, red+blue, blue, blue+green, green (red 0200,
  green 0100, blue 0400), and \<open>luma\<close> is \<open>(p >> 4) & 3\<close>. It holds for
  every \<open>int\<close> with such a hue nibble, the 9-bit codes among them, and
  whatever lies in memory around the table \<open>active\<close>.
\<close>

theorem square_sample_chroma:
  assumes "1 \<le> p AND 15" and "p AND 15 \<le> 12" and "0 \<le> phase"
    and "(p AND 15) + phase \<le> 2147483647"
  shows "square_sample m p phase =
           spec_voltage (spec_polarity p phase) (spec_emphasis p phase) (spec_luma p)"
  using assms polarity_spec [OF assms(3,4)]
  by (simp add: square_sample_entry src_emphasis_spec)

theorem square_sample_chroma_witness:
  "1 \<le> (422::int) AND 15 \<and> (422::int) AND 15 \<le> 12 \<and> (0::int) \<le> 5 \<and>
   ((422::int) AND 15) + 5 \<le> 2147483647 \<and>
   square_sample (beyond_active sample_core) 422 5 = 19497"
proof -
  have h: "1 \<le> (422::int) AND 15" "(422::int) AND 15 \<le> 12" "(0::int) \<le> 5"
    "((422::int) AND 15) + 5 \<le> 2147483647"
    by simp_all
  have "spec_voltage (spec_polarity 422 5) (spec_emphasis 422 5) (spec_luma 422) = 19497"
    by (simp add: spec_voltage_def spec_polarity_def spec_emphasis_def spec_luma_def
        emphasis_rotation_def emph_red_def emph_green_def emph_blue_def IRE_def
        drop_bit_eq_div)
  with square_sample_chroma [OF h] h show ?thesis by simp
qed

text \<open>
  C3. For every phase, negative ones included, and every setting of the
  emphasis and luma bits: a pixel code with hue nibble 0x0E or 0x0F makes
  \<open>square_sample\<close> return 0; with hue nibble 0x00 the polarity index is 1
  and the result is the entry \<open>8 | (e << 2) | luma\<close> of the upper
  (peak-white) table row; with hue nibble 0x0D the polarity index is 0 and
  the result is the entry \<open>(e << 2) | luma\<close> of the lower (sync-black)
  table row. Here \<open>e\<close> is the emphasis bit the code computes; it is 0 or
  1 whatever \<open>active[(phase >> 1) % 6]\<close> holds, also where a negative phase
  takes that index outside the table, and for a non-negative phase it is the
  emphasis test of the rotation.
\<close>

theorem square_sample_special_hues:
  "(14 \<le> p AND 15 \<longrightarrow> square_sample m p phase = 0) \<and>
   (p AND 15 = 0 \<longrightarrow>
      square_sample m p phase = spec_voltage 1 (src_emphasis m p phase) (spec_luma p)) \<and>
   (p AND 15 = 13 \<longrightarrow>
      square_sample m p phase = spec_voltage 0 (src_emphasis m p phase) (spec_luma p)) \<and>
   (src_emphasis m p phase = 0 \<or> src_emphasis m p phase = 1) \<and>
   0 \<le> spec_luma p \<and> spec_luma p \<le> 3 \<and>
   (0 \<le> phase \<longrightarrow> src_emphasis m p phase = spec_emphasis p phase)"
proof (intro conjI impI)
  assume "14 \<le> p AND 15"
  then show "square_sample m p phase = 0"
    by (simp add: square_sample_def)
next
  assume "p AND 15 = 0"
  then show "square_sample m p phase = spec_voltage 1 (src_emphasis m p phase) (spec_luma p)"
    by (simp add: square_sample_entry)
next
  assume "p AND 15 = 13"
  then show "square_sample m p phase = spec_voltage 0 (src_emphasis m p phase) (spec_luma p)"
    by (simp add: square_sample_entry)
next
  show "src_emphasis m p phase = 0 \<or> src_emphasis m p phase = 1"
    by (rule src_emphasis_01)
next
  show "0 \<le> spec_luma p" "spec_luma p \<le> 3"
    using luma_range by (simp_all add: spec_luma_def)
next
  assume "0 \<le> phase"
  then show "src_emphasis m p phase = spec_emphasis p phase"
    by (rule src_emphasis_spec)
qed

theorem square_sample_special_hues_witness:
  "(14::int) \<le> 14 AND 15 \<and> square_sample (beyond_active sample_core) 14 (- 2) = 0 \<and>
   (0::int) AND 15 = 0 \<and> square_sample (beyond_active sample_core) 0 (- 2) = 43581 \<and>
   (13::int) AND 15 = 13 \<and> square_sample (beyond_active sample_core) 13 (- 2) = - 12042 \<and>
   (0::int) \<le> 7 \<and> (448::int) AND 15 = 0 \<and>
   square_sample (beyond_active sample_core) 448 7 = 26951"
proof -
  let ?m = "beyond_active sample_core"
  have a: "(14::int) \<le> 14 AND 15" by simp
  have b: "(0::int) AND 15 = 0" by simp
  have c: "(13::int) AND 15 = 13" by simp
  have d: "(0::int) \<le> 7" "(448::int) AND 15 = 0" by simp_all
  have eb: "src_emphasis ?m 0 (- 2) = 0" by (simp add: src_emphasis_def)
  have ec: "src_emphasis ?m 13 (- 2) = 0" by (simp add: src_emphasis_def)
  have vb: "spec_voltage 1 0 (spec_luma 0) = 43581"
    by (simp add: spec_voltage_def spec_luma_def IRE_def)
  have vc: "spec_voltage 0 0 (spec_luma 13) = - 12042"
    by (simp add: spec_voltage_def spec_luma_def IRE_def)
  have vd: "spec_voltage 1 (spec_emphasis 448 7) (spec_luma 448) = 26951"
    by (simp add: spec_voltage_def spec_emphasis_def spec_luma_def
        emphasis_rotation_def emph_red_def emph_green_def emph_blue_def IRE_def
        drop_bit_eq_div)
  from square_sample_special_hues [of 14 ?m "- 2"] a
  have "square_sample ?m 14 (- 2) = 0" by blast
  moreover from square_sample_special_hues [of 0 ?m "- 2"] b eb vb
  have "square_sample ?m 0 (- 2) = 43581" by simp
  moreover from square_sample_special_hues [of 13 ?m "- 2"] c ec vc
  have "square_sample ?m 13 (- 2) = - 12042" by simp
  moreover from square_sample_special_hues [of 448 ?m 7] d vd
  have "square_sample ?m 448 7 = 26951" by simp
  ultimately show ?thesis using a b c d by simp
qed

section \<open>Properties of \<open>setup_field\<close>\<close>

lemma fill_eq:
  "fill a base t lim val =
     ((\<lambda>i. if base + t \<le> i \<and> i < base + lim then to_schar val else a i), max t lim)"
proof (induction a base t lim val rule: fill.induct)
  case (1 a base t lim val)
  show ?case
  proof (cases "t < lim")
    case True
    have "fill a base t lim val = fill (a(base + t := to_schar val)) base (t + 1) lim val"
      using True by (subst fill.simps) simp
    also note 1 [OF True]
    finally show ?thesis
      using True by (auto simp: fun_eq_iff)
  next
    case False
    then show ?thesis
      by (subst fill.simps) (auto simp: fun_eq_iff)
  qed
qed

lemma percent_c_div: "0 < PAL_HRES c \<Longrightarrow> 0 \<le> k \<Longrightarrow> c_div (k * PAL_HRES c) 100 = percent c k"
  by (simp add: percent_def c_div_nonneg)

lemma percent_mono: "0 < PAL_HRES c \<Longrightarrow> j \<le> k \<Longrightarrow> percent c j \<le> percent c k"
  unfolding percent_def by (intro zdiv_mono1) (simp_all add: mult_right_mono)

lemma percent_0 [simp]: "percent c 0 = 0" by (simp add: percent_def)
lemma percent_100 [simp]: "percent c 100 = PAL_HRES c" by (simp add: percent_def)

lemma setup_line_eq:
  assumes "timing_ok c"
  shows "setup_line c a n =
     (\<lambda>i. if n * PAL_HRES c \<le> i \<and> i < n * PAL_HRES c + PAL_HRES c
          then to_schar (waveform c (line_kind_of n) (i - n * PAL_HRES c)) else a i)"
proof -
  have H: "0 < PAL_HRES c" and L: "LINE_BEG c = 0"
    and S: "0 \<le> SYNC_BEG c" "SYNC_BEG c \<le> BW_BEG c" "BW_BEG c \<le> PAL_HRES c"
    using assms by (simp_all add: timing_ok_def)
  note pc = percent_c_div [OF H]
  have m: "0 \<le> percent c 4" "percent c 4 \<le> percent c 50" "percent c 50 \<le> percent c 54"
    "percent c 54 \<le> PAL_HRES c" "0 \<le> percent c 46" "percent c 46 \<le> percent c 50"
    "percent c 50 \<le> percent c 96" "percent c 96 \<le> PAL_HRES c"
    using percent_mono [OF H, of 0 4] percent_mono [OF H, of 4 50] percent_mono [OF H, of 50 54]
      percent_mono [OF H, of 54 100] percent_mono [OF H, of 0 46] percent_mono [OF H, of 46 50]
      percent_mono [OF H, of 50 96] percent_mono [OF H, of 96 100]
    by simp_all
  consider (eq) "line_kind_of n = Equalizing" | (vs) "line_kind_of n = VerticalSync"
    | (sc) "line_kind_of n = Scanline"
    by (cases "line_kind_of n") auto
  then show ?thesis
  proof cases
    case eq
    then have k: "n \<le> 3 \<or> (n \<ge> 7 \<and> n \<le> 9)"
      by (auto simp: line_kind_of_def split: if_splits)
    show ?thesis
      using k m
      by (auto simp: setup_line_def Let_def fill_eq pc L eq waveform_def fun_eq_iff)
  next
    case vs
    then have k: "\<not> (n \<le> 3 \<or> (n \<ge> 7 \<and> n \<le> 9))" "n \<ge> 4 \<and> n \<le> 6"
      by (auto simp: line_kind_of_def split: if_splits)
    show ?thesis
      using k m
      by (auto simp: setup_line_def Let_def fill_eq pc L vs waveform_def fun_eq_iff)
  next
    case sc
    then have k: "\<not> (n \<le> 3 \<or> (n \<ge> 7 \<and> n \<le> 9))" "\<not> (n \<ge> 4 \<and> n \<le> 6)"
      by (auto simp: line_kind_of_def split: if_splits)
    show ?thesis
      using k S
      by (auto simp: setup_line_def Let_def fill_eq L sc waveform_def fun_eq_iff)
  qed
qed


lemma row_col:
  assumes "0 < (H::int)" "n * H \<le> i" "i < n * H + H"
  shows "i div H = n \<and> i mod H = i - n * H"
proof -
  define t where "t = i - n * H"
  then have i: "i = t + n * H" and t: "0 \<le> t" "t < H" using assms by simp_all
  show ?thesis unfolding i using t assms(1) by simp
qed

lemma setup_lines_eq:
  assumes "timing_ok c"
  shows "setup_lines c a n =
     (\<lambda>i. if n * PAL_HRES c \<le> i \<and> i < PAL_VRES c * PAL_HRES c
          then to_schar (waveform c (line_kind_of (i div PAL_HRES c)) (i mod PAL_HRES c))
          else a i)"
  using assms
proof (induction c a n rule: setup_lines.induct)
  case (1 c a n)
  have H: "0 < PAL_HRES c" using 1(2) by (simp add: timing_ok_def)
  show ?case
  proof (cases "n < PAL_VRES c")
    case True
    have step: "setup_lines c a n = setup_lines c (setup_line c a n) (n + 1)"
      using True by (subst setup_lines.simps) simp
    have "(n + 1) * PAL_HRES c \<le> PAL_VRES c * PAL_HRES c"
      using True H by (intro mult_right_mono) simp_all
    then have le: "n * PAL_HRES c + PAL_HRES c \<le> PAL_VRES c * PAL_HRES c"
      by (simp add: distrib_right)
    have n1: "(n + 1) * PAL_HRES c = n * PAL_HRES c + PAL_HRES c"
      by (simp add: distrib_right)
    note step
    also note 1(1) [OF True 1(2)]
    finally have eq: "setup_lines c a n =
        (\<lambda>i. if (n + 1) * PAL_HRES c \<le> i \<and> i < PAL_VRES c * PAL_HRES c
             then to_schar (waveform c (line_kind_of (i div PAL_HRES c)) (i mod PAL_HRES c))
             else setup_line c a n i)" .
    show ?thesis
    proof (rule ext)
      fix i
      show "setup_lines c a n i =
        (if n * PAL_HRES c \<le> i \<and> i < PAL_VRES c * PAL_HRES c
         then to_schar (waveform c (line_kind_of (i div PAL_HRES c)) (i mod PAL_HRES c))
         else a i)"
      proof (cases "n * PAL_HRES c \<le> i \<and> i < n * PAL_HRES c + PAL_HRES c")
        case True
        with row_col [OF H, of n i]
        have dm: "i div PAL_HRES c = n" "i mod PAL_HRES c = i - n * PAL_HRES c" by simp_all
        from True le show ?thesis
          by (simp add: eq n1 setup_line_eq [OF 1(2)] dm)
      next
        case False
        with le H show ?thesis
          by (auto simp: eq n1 setup_line_eq [OF 1(2)])
      qed
    qed
  next
    case False
    then have "PAL_VRES c * PAL_HRES c \<le> n * PAL_HRES c"
      using H by (intro mult_right_mono) simp_all
    then show ?thesis
      using False by (subst setup_lines.simps) (auto simp: fun_eq_iff)
  qed
qed

lemma setup_field_sample:
  assumes "timing_ok c" "0 \<le> n" "n < PAL_VRES c" "0 \<le> t" "t < PAL_HRES c"
  shows "analog (setup_field c v) (n * PAL_HRES c + t) = to_schar (waveform c (line_kind_of n) t)"
proof -
  have H: "0 < PAL_HRES c" using assms(1) by (simp add: timing_ok_def)
  have "n + 1 \<le> PAL_VRES c" using assms by simp
  then have "(n + 1) * PAL_HRES c \<le> PAL_VRES c * PAL_HRES c"
    using H by (intro mult_right_mono) simp_all
  then have hi: "n * PAL_HRES c + t < PAL_VRES c * PAL_HRES c"
    using assms by (simp add: algebra_simps)
  have lo: "0 \<le> n * PAL_HRES c + t" using assms H by simp
  show ?thesis
    using hi lo assms H by (simp add: setup_field_def setup_lines_eq [OF assms(1)])
qed

lemma pulse_count_cong:
  assumes "\<And>t. 0 \<le> t \<Longrightarrow> t < len \<Longrightarrow> f t = g t"
  shows "pulse_count lev f len = pulse_count lev g len"
proof -
  have "{t \<in> {0..<len}. f t = lev \<and> (t + 1 = len \<or> f (t + 1) \<noteq> lev)} =
        {t \<in> {0..<len}. g t = lev \<and> (t + 1 = len \<or> g (t + 1) \<noteq> lev)}"
    using assms by (auto; smt (verit))
  then show ?thesis by (simp add: pulse_count_def)
qed

lemma two_pulses:
  assumes "X \<noteq> Y" "0 \<le> p" "p < q" "q < r" "r < s" "s \<le> len"
  shows "pulse_count X (\<lambda>t. if (p \<le> t \<and> t < q) \<or> (r \<le> t \<and> t < s) then X else Y) len = 2"
proof -
  have "{t \<in> {0..<len}. (if (p \<le> t \<and> t < q) \<or> (r \<le> t \<and> t < s) then X else Y) = X \<and>
          (t + 1 = len \<or> (if (p \<le> t + 1 \<and> t + 1 < q) \<or> (r \<le> t + 1 \<and> t + 1 < s) then X else Y) \<noteq> X)}
        = {q - 1, s - 1}"
    using assms by (auto split: if_splits)
  moreover have "q - 1 \<noteq> s - 1" using assms by simp
  ultimately show ?thesis by (simp add: pulse_count_def)
qed

lemma one_pulse:
  assumes "X \<noteq> Y" "0 \<le> p" "p < q" "q \<le> len"
  shows "pulse_count X (\<lambda>t. if p \<le> t \<and> t < q then X else Y) len = 1"
proof -
  have "{t \<in> {0..<len}. (if p \<le> t \<and> t < q then X else Y) = X \<and>
          (t + 1 = len \<or> (if p \<le> t + 1 \<and> t + 1 < q then X else Y) \<noteq> X)}
        = {q - 1}"
    using assms by (auto split: if_splits)
  then show ?thesis by (simp add: pulse_count_def)
qed


lemma percent_less:
  assumes "j * PAL_HRES c + 100 \<le> k * PAL_HRES c"
  shows "percent c j < percent c k"
proof -
  have "(j * PAL_HRES c + 100) div 100 \<le> (k * PAL_HRES c) div 100"
    using assms by (intro zdiv_mono1) simp_all
  then show ?thesis by (simp add: percent_def)
qed

lemma setup_field_pulses:
  assumes ok: "timing_ok c" and n: "0 \<le> n" "n < PAL_VRES c"
    and wide: "25 \<le> PAL_HRES c" and lev: "to_schar (SYNC_LEVEL c) \<noteq> to_schar (BLANK_LEVEL c)"
  shows "line_kind_of n = Equalizing \<Longrightarrow>
           pulse_count (to_schar (SYNC_LEVEL c)) (field_line c (analog (setup_field c v)) n) (PAL_HRES c) = 2"
    and "line_kind_of n = VerticalSync \<Longrightarrow>
           pulse_count (to_schar (BLANK_LEVEL c)) (field_line c (analog (setup_field c v)) n) (PAL_HRES c) = 2"
    and "line_kind_of n = Scanline \<Longrightarrow> SYNC_BEG c < BW_BEG c \<Longrightarrow>
           pulse_count (to_schar (SYNC_LEVEL c)) (field_line c (analog (setup_field c v)) n) (PAL_HRES c) = 1"
proof -
  let ?S = "to_schar (SYNC_LEVEL c)" and ?B = "to_schar (BLANK_LEVEL c)"
  let ?line = "field_line c (analog (setup_field c v)) n"
  have line: "\<And>t. 0 \<le> t \<Longrightarrow> t < PAL_HRES c \<Longrightarrow>
      ?line t = to_schar (waveform c (line_kind_of n) t)"
    using setup_field_sample [OF ok n] by (simp add: field_line_def)
  have p: "0 < percent c 4" "percent c 4 < percent c 50" "percent c 50 < percent c 54"
    "percent c 54 \<le> PAL_HRES c" "0 \<le> percent c 46" "percent c 46 < percent c 50"
    "percent c 50 < percent c 96" "percent c 96 < PAL_HRES c"
    using wide percent_less [of 0 c 4] percent_less [of 4 c 50] percent_less [of 50 c 54]
      percent_less [of 54 c 100] percent_less [of 0 c 46] percent_less [of 46 c 50]
      percent_less [of 50 c 96] percent_less [of 96 c 100]
    by simp_all
  {
    assume k: "line_kind_of n = Equalizing"
    have "pulse_count ?S ?line (PAL_HRES c) =
      pulse_count ?S (\<lambda>t. if (0 \<le> t \<and> t < percent c 4) \<or> (percent c 50 \<le> t \<and> t < percent c 54)
                           then ?S else ?B) (PAL_HRES c)"
      by (rule pulse_count_cong) (simp add: line k waveform_def)
    also have "\<dots> = 2"
      using lev p by (intro two_pulses) simp_all
    finally show "pulse_count ?S ?line (PAL_HRES c) = 2" .
  next
    assume k: "line_kind_of n = VerticalSync"
    have "pulse_count ?B ?line (PAL_HRES c) =
      pulse_count ?B (\<lambda>t. if (percent c 46 \<le> t \<and> t < percent c 50) \<or> (percent c 96 \<le> t \<and> t < PAL_HRES c)
                           then ?B else ?S) (PAL_HRES c)"
      by (rule pulse_count_cong) (simp add: line k waveform_def)
    also have "\<dots> = 2"
      using lev p by (intro two_pulses) simp_all
    finally show "pulse_count ?B ?line (PAL_HRES c) = 2" .
  next
    assume k: "line_kind_of n = Scanline" and s: "SYNC_BEG c < BW_BEG c"
    have g: "0 \<le> SYNC_BEG c" "BW_BEG c \<le> PAL_HRES c"
      using ok by (simp_all add: timing_ok_def)
    have "pulse_count ?S ?line (PAL_HRES c) =
      pulse_count ?S (\<lambda>t. if SYNC_BEG c \<le> t \<and> t < BW_BEG c then ?S else ?B) (PAL_HRES c)"
      by (rule pulse_count_cong) (simp add: line k waveform_def)
    also have "\<dots> = 1"
      using lev s g by (intro one_pulse) simp_all
    finally show "pulse_count ?S ?line (PAL_HRES c) = 1" .
  }
qed

lemma sample_timing_ok: "timing_ok sample_core"
  by (simp add: timing_ok_def sample_core_def)

lemma sample_levels_differ:
  "to_schar (SYNC_LEVEL sample_core) \<noteq> to_schar (BLANK_LEVEL sample_core)"
  by (simp add: to_schar_def sample_core_def)

text \<open>
  C4, as stated, has four sync blips on an equalizing line and four blanking
  blips on a vertical-sync line. In the sample configuration line 0 holds
  two runs of the sync level and line 4 holds two runs of the blanking level.
\<close>

theorem equalizing_line_has_two_pulses:
  "pulse_count (to_schar (SYNC_LEVEL sample_core))
     (field_line sample_core (analog (setup_field sample_core fresh_crt)) 0) (PAL_HRES sample_core) = 2 \<and>
   pulse_count (to_schar (BLANK_LEVEL sample_core))
     (field_line sample_core (analog (setup_field sample_core fresh_crt)) 4) (PAL_HRES sample_core) = 2"
proof -
  have a: "(0::int) \<le> 0" "0 < PAL_VRES sample_core" "(0::int) \<le> 4" "4 < PAL_VRES sample_core"
    "25 \<le> PAL_HRES sample_core"
    by (simp_all add: sample_core_def)
  have k: "line_kind_of 0 = Equalizing" "line_kind_of 4 = VerticalSync"
    by (simp_all add: line_kind_of_def)
  show ?thesis
    using setup_field_pulses(1) [OF sample_timing_ok a(1,2) a(5) sample_levels_differ k(1)]
      setup_field_pulses(2) [OF sample_timing_ok a(3,4) a(5) sample_levels_differ k(2)]
    by simp
qed

text \<open>
  C4, amended. After \<open>setup_field\<close>, every sample \<open>t\<close> in
  \<open>[0, PAL_HRES)\<close> of every line \<open>n\<close> in \<open>[0, PAL_VRES)\<close> holds its
  category's waveform: on equalizing lines (0..3 and 7..9) the sync level in
  the windows 0-4% and 50-54% of the line width and the blanking level
  elsewhere; on vertical-sync lines (4..6) the blanking level in the windows
  46-50% and 96-100% and the sync level elsewhere; on every other line
  blanking up to \<open>SYNC_BEG\<close>, sync up to \<open>BW_BEG\<close>, blanking to the line
  end. No other value is present. When the line has at least 25 samples and
  the two levels differ as \<open>signed char\<close>, that makes two sync blips per
  equalizing line, two blanking blips per vertical-sync line and, when
  \<open>SYNC_BEG < BW_BEG\<close>, one sync pulse per other line.
\<close>

theorem setup_field_waveforms:
  assumes "timing_ok c" and "0 \<le> n" and "n < PAL_VRES c"
  shows "(\<forall>t. 0 \<le> t \<and> t < PAL_HRES c \<longrightarrow>
            field_line c (analog (setup_field c v)) n t = to_schar (waveform c (line_kind_of n) t)) \<and>
         (25 \<le> PAL_HRES c \<and> to_schar (SYNC_LEVEL c) \<noteq> to_schar (BLANK_LEVEL c) \<longrightarrow>
            (line_kind_of n = Equalizing \<longrightarrow>
               pulse_count (to_schar (SYNC_LEVEL c)) (field_line c (analog (setup_field c v)) n) (PAL_HRES c) = 2) \<and>
            (line_kind_of n = VerticalSync \<longrightarrow>
               pulse_count (to_schar (BLANK_LEVEL c)) (field_line c (analog (setup_field c v)) n) (PAL_HRES c) = 2) \<and>
            (line_kind_of n = Scanline \<and> SYNC_BEG c < BW_BEG c \<longrightarrow>
               pulse_count (to_schar (SYNC_LEVEL c)) (field_line c (analog (setup_field c v)) n) (PAL_HRES c) = 1))"
  using setup_field_sample [OF assms] setup_field_pulses [OF assms]
  by (simp add: field_line_def)


theorem setup_field_waveforms_witness:
  "timing_ok sample_core \<and> (0::int) \<le> 4 \<and> 4 < PAL_VRES sample_core \<and>
   (0::int) \<le> 190 \<and> 190 < PAL_HRES sample_core \<and>
   25 \<le> PAL_HRES sample_core \<and>
   to_schar (SYNC_LEVEL sample_core) \<noteq> to_schar (BLANK_LEVEL sample_core) \<and>
   line_kind_of 4 = VerticalSync \<and>
   field_line sample_core (analog (setup_field sample_core fresh_crt)) 4 190 = 0 \<and>
   pulse_count (to_schar (BLANK_LEVEL sample_core))
     (field_line sample_core (analog (setup_field sample_core fresh_crt)) 4) (PAL_HRES sample_core) = 2"
proof -
  have a: "(0::int) \<le> 4" "4 < PAL_VRES sample_core"
    by (simp_all add: sample_core_def)
  have b: "(0::int) \<le> 190 \<and> 190 < PAL_HRES sample_core" "25 \<le> PAL_HRES sample_core"
    by (simp_all add: sample_core_def)
  have k: "line_kind_of 4 = VerticalSync"
    by (simp add: line_kind_of_def)
  have w: "to_schar (waveform sample_core VerticalSync 190) = 0"
    by (simp add: waveform_def percent_def sample_core_def to_schar_def)
  from setup_field_waveforms [OF sample_timing_ok a, of fresh_crt] b k w sample_levels_differ
  have "field_line sample_core (analog (setup_field sample_core fresh_crt)) 4 190 = 0"
    and "pulse_count (to_schar (BLANK_LEVEL sample_core))
     (field_line sample_core (analog (setup_field sample_core fresh_crt)) 4) (PAL_HRES sample_core) = 2"
    by simp_all
  with sample_timing_ok a b k sample_levels_differ show ?thesis by simp
qed

section \<open>The loops of \<open>pal_modulate\<close> in closed form\<close>

lemma line_phase_nonneg: "0 \<le> line_phase n"
  by (simp add: line_phase_def)

lemma line_phase_le: "line_phase n \<le> 28"
proof -
  have "n mod 12 < 12" by simp
  then have "n mod 12 \<le> 11" by linarith
  then show ?thesis by (simp add: line_phase_def)
qed

lemma line_phase_int32: "in_int32 (line_phase n)"
  using line_phase_nonneg [of n] line_phase_le [of n] by (simp add: in_int32_def)

lemma av_loop_eq:
  assumes "in_int32 phase"
  shows "av_loop c v s xo yo y sy x phase a =
     (\<lambda>i. if x \<le> i - xo - (y + yo) * PAL_HRES c \<and> i - xo - (y + yo) * PAL_HRES c < AV_LEN c
          then to_schar (ire_sample c v
                 (data s (add32 (c_div (mul32 (i - xo - (y + yo) * PAL_HRES c) (w s)) (AV_LEN c)) sy))
                 (wrap32 (phase + 3 * (i - xo - (y + yo) * PAL_HRES c - x))))
          else a i)"
  using assms
proof (induction "nat (AV_LEN c - x)" arbitrary: x phase a)
  case 0
  then have "\<not> x < AV_LEN c" by simp
  then show ?case
    by (subst av_loop.simps) (auto simp: fun_eq_iff)
next
  case (Suc k)
  then have lt: "x < AV_LEN c" and k: "k = nat (AV_LEN c - (x + 1))" by linarith+
  have ph: "in_int32 (add32 phase 3)" by (simp add: add32_def wrap32_in)
  have step: "av_loop c v s xo yo y sy x phase a =
      av_loop c v s xo yo y sy (x + 1) (add32 phase 3)
        (a((x + xo) + (y + yo) * PAL_HRES c :=
           to_schar (ire_sample c v (data s (add32 (c_div (mul32 x (w s)) (AV_LEN c)) sy)) phase)))"
    using lt by (subst av_loop.simps) (simp add: Let_def)
  have adv: "\<And>j. wrap32 (add32 phase 3 + 3 * (j - (x + 1))) = wrap32 (phase + 3 * (j - x))"
  proof -
    fix j
    have "phase + 3 + 3 * (j - (x + 1)) = phase + 3 * (j - x)" by (simp add: algebra_simps)
    then show "wrap32 (add32 phase 3 + 3 * (j - (x + 1))) = wrap32 (phase + 3 * (j - x))"
      unfolding add32_def wrap32_add_left by simp
  qed
  have here: "wrap32 (phase + 3 * (x - x)) = phase"
    using Suc.prems by (simp add: wrap32_id)
  show ?case
    unfolding step Suc.hyps(1) [OF k ph] adv
    using lt here by (auto simp: fun_eq_iff algebra_simps)
qed

lemma c_mod6: "0 \<le> n \<Longrightarrow> c_mod n 6 = n mod 6"
  by (simp add: c_mod_nonneg)

lemma ccburst_amp: "ccburst c hu (n mod 6) (t AND 3) = Some (burst_amp c hu (n mod 6) (t AND 3))"
  using luma_range [of t]
  by (simp add: ccburst_def burst_amp_def Let_def split: prod.splits)

lemma burst_loop_eq:
  assumes "0 \<le> n"
  shows "burst_loop c hu n base t a iccf =
     Some (\<lambda>i. if t \<le> i - base \<and> i - base < burst_end c
                then burst_sample c hu (n mod 6) ((i - base) AND 3) else a i,
           \<lambda>k. if fst k = n mod 6 \<and> snd k \<in> (\<lambda>j. j AND 3) ` {t..<burst_end c}
                then Some (sint (burst_sample c hu (n mod 6) (snd k))) else iccf k)"
proof (induction "nat (burst_end c - t)" arbitrary: t a iccf)
  case 0
  then have "\<not> t < CB_BEG c + CB_CYCLES c * PAL_CB_FREQ c" and "\<not> t < burst_end c"
    by (simp_all add: burst_end_def)
  then show ?case
    by (subst burst_loop.simps) (auto simp: fun_eq_iff)
next
  case (Suc k)
  then have lt: "t < burst_end c" and k: "k = nat (burst_end c - (t + 1))" by linarith+
  have t': "t < CB_BEG c + CB_CYCLES c * PAL_CB_FREQ c" using lt by (simp add: burst_end_def)
  have step: "burst_loop c hu n base t a iccf =
      burst_loop c hu n base (t + 1)
        (a(base + t := burst_sample c hu (n mod 6) (t AND 3)))
        (iccf((n mod 6, t AND 3) \<mapsto> sint (burst_sample c hu (n mod 6) (t AND 3))))"
    using t' assms
    by (subst burst_loop.simps) (simp add: ccburst_amp burst_sample_def Let_def c_mod6)
  have ins: "{t..<burst_end c} = insert t {t + 1..<burst_end c}" using lt by auto
  show ?case
    unfolding step Suc.hyps(1) [OF k] ins
    using lt by (auto simp: fun_eq_iff)
qed


lemma bsign_mod6: "bsign (n mod 6) = Some (if (n mod 6) AND 1 \<noteq> 0 then - 1 else 1)"
  by (simp add: bsign_def)

lemma and_one_even: "((k::int) AND 1 \<noteq> 0) = odd k"
  by (simp add: and_one_eq mod_2_eq_odd)

lemma line_phase_src:
  "0 \<le> n \<Longrightarrow> c_mod n 12 * 2 + (if (if (n mod 6) AND 1 \<noteq> 0 then - 1 else 1 :: int) = 1 then 6 else 0)
     = line_phase n"
  by (simp add: line_phase_def c_mod_nonneg and_one_even)

lemma line_body_eq:
  assumes "0 \<le> y + PAL_TOP c"
  shows "line_body c v s (av_start c) (PAL_TOP c) y a iccf =
     Some (\<lambda>i. line_sample c v s y (i - (y + PAL_TOP c) * PAL_HRES c) (a i),
           \<lambda>k. if fst k = (y + PAL_TOP c) mod 6 \<and> snd k \<in> (\<lambda>j. j AND 3) ` {CB_BEG c..<burst_end c}
                then Some (sint (burst_sample c (hue s) ((y + PAL_TOP c) mod 6) (snd k))) else iccf k)"
proof -
  have ph: "in_int32 (line_phase (y + PAL_TOP c))" by (rule line_phase_int32)
  show ?thesis
    unfolding line_body_def Let_def fill_eq fst_conv burst_loop_eq [OF assms] option.case prod.case
      c_mod6 [OF assms] bsign_mod6 line_phase_src [OF assms] av_loop_eq [OF ph]
    by (auto simp: fun_eq_iff line_sample_def av_pixel_def fetch_index_def algebra_simps)
qed


lemma core_ok_windows:
  assumes "core_ok c"
  shows "0 < PAL_HRES c" "0 \<le> BW_BEG c" "BW_BEG c \<le> CB_BEG c" "CB_BEG c \<le> burst_end c"
    "burst_end c \<le> av_start c" "av_start c + AV_LEN c \<le> PAL_HRES c" "0 < AV_LEN c"
    "0 \<le> PAL_TOP c" "6 \<le> PAL_LINES c" "PAL_TOP c + PAL_LINES c \<le> PAL_VRES c"
    "CB_BEG c + 4 \<le> burst_end c" "timing_ok c"
  using assms by (simp_all add: core_ok_def timing_ok_def burst_end_def av_start_def)

lemma line_sample_outside:
  assumes "core_ok c" "\<not> (0 \<le> t \<and> t < PAL_HRES c)"
  shows "line_sample c v s y t old = old"
  using core_ok_windows [OF assms(1)] assms(2) by (auto simp: line_sample_def)

lemma line_loop_eq:
  assumes ok: "core_ok c" and y: "0 \<le> y"
  shows "line_loop c v s (av_start c) (PAL_TOP c) y a iccf =
     Some (\<lambda>i. if y \<le> i div PAL_HRES c - PAL_TOP c \<and> i div PAL_HRES c - PAL_TOP c < PAL_LINES c
                then line_sample c v s (i div PAL_HRES c - PAL_TOP c) (i mod PAL_HRES c) (a i)
                else a i,
           \<lambda>k. if fst k \<in> (\<lambda>j. (j + PAL_TOP c) mod 6) ` {y..<PAL_LINES c} \<and>
                   snd k \<in> (\<lambda>j. j AND 3) ` {CB_BEG c..<burst_end c}
                then Some (sint (burst_sample c (hue s) (fst k) (snd k))) else iccf k)"
  using y
proof (induction "nat (PAL_LINES c - y)" arbitrary: y a iccf)
  case 0
  then have "\<not> y < PAL_LINES c" by simp
  then show ?case
    by (subst line_loop.simps) (auto simp: fun_eq_iff)
next
  case (Suc k)
  then have lt: "y < PAL_LINES c" and k: "k = nat (PAL_LINES c - (y + 1))" by linarith+
  have H: "0 < PAL_HRES c" and top: "0 \<le> PAL_TOP c"
    using core_ok_windows [OF ok] by simp_all
  have n: "0 \<le> y + PAL_TOP c" and y1: "0 \<le> y + 1" using Suc.prems top by simp_all
  let ?n = "y + PAL_TOP c"
  have ins: "{y..<PAL_LINES c} = insert y {y + 1..<PAL_LINES c}" using lt by auto
  have step: "line_loop c v s (av_start c) (PAL_TOP c) y a iccf =
      line_loop c v s (av_start c) (PAL_TOP c) (y + 1)
        (\<lambda>i. line_sample c v s y (i - ?n * PAL_HRES c) (a i))
        (\<lambda>k. if fst k = ?n mod 6 \<and> snd k \<in> (\<lambda>j. j AND 3) ` {CB_BEG c..<burst_end c}
              then Some (sint (burst_sample c (hue s) (?n mod 6) (snd k))) else iccf k)"
    using lt by (subst line_loop.simps) (simp add: line_body_eq [OF n])
  have store: "\<And>i. (if y + 1 \<le> i div PAL_HRES c - PAL_TOP c \<and> i div PAL_HRES c - PAL_TOP c < PAL_LINES c
                then line_sample c v s (i div PAL_HRES c - PAL_TOP c) (i mod PAL_HRES c)
                       (line_sample c v s y (i - ?n * PAL_HRES c) (a i))
                else line_sample c v s y (i - ?n * PAL_HRES c) (a i)) =
            (if y \<le> i div PAL_HRES c - PAL_TOP c \<and> i div PAL_HRES c - PAL_TOP c < PAL_LINES c
                then line_sample c v s (i div PAL_HRES c - PAL_TOP c) (i mod PAL_HRES c) (a i)
                else a i)"
  proof -
    fix i
    show "?thesis i"
    proof (cases "?n * PAL_HRES c \<le> i \<and> i < ?n * PAL_HRES c + PAL_HRES c")
      case True
      with row_col [OF H, of ?n i]
      have dm: "i div PAL_HRES c = ?n" "i mod PAL_HRES c = i - ?n * PAL_HRES c" by simp_all
      show ?thesis using lt by (simp add: dm)
    next
      case False
      then have out: "\<not> (0 \<le> i - ?n * PAL_HRES c \<and> i - ?n * PAL_HRES c < PAL_HRES c)" by auto
      have ne: "i div PAL_HRES c \<noteq> ?n"
      proof
        assume e: "i div PAL_HRES c = ?n"
        have "i = (i div PAL_HRES c) * PAL_HRES c + i mod PAL_HRES c" by simp
        moreover have "0 \<le> i mod PAL_HRES c" "i mod PAL_HRES c < PAL_HRES c" using H by simp_all
        ultimately show False using False e by auto
      qed
      then have "(y + 1 \<le> i div PAL_HRES c - PAL_TOP c) = (y \<le> i div PAL_HRES c - PAL_TOP c)"
        by auto
      then show ?thesis
        by (simp add: line_sample_outside [OF ok out])
    qed
  qed
  show ?case
    unfolding step Suc.hyps(1) [OF k y1] ins
    by (auto simp: fun_eq_iff store)
qed


lemma and3_mod4: "(j::int) AND 3 = j mod 4"
proof -
  have "j AND mask 2 = j mod 2 ^ 2"
    by (simp only: take_bit_eq_mask [symmetric] take_bit_eq_mod)
  then show ?thesis by (simp add: mask_eq_exp_minus_1)
qed

lemma group_covered:
  assumes "6 \<le> (L::int)" "0 \<le> (g::int)" "g < 6"
  shows "g \<in> (\<lambda>j. (j + T) mod 6) ` {0..<L}"
proof
  show "g = ((g - T) mod 6 + T) mod 6" using assms by (simp add: mod_add_left_eq)
  show "(g - T) mod 6 \<in> {0..<L}" using assms(1) by (simp add: order.strict_trans2 [of _ 6])
qed

lemma quad_covered:
  assumes "B + 4 \<le> (E::int)" "0 \<le> (q::int)" "q < 4"
  shows "q \<in> (\<lambda>j. j AND 3) ` {B..<E}"
proof
  show "q = (B + (q - B) mod 4) AND 3"
    using assms by (simp add: and3_mod4 mod_add_right_eq)
  have "0 \<le> (q - B) mod 4" "(q - B) mod 4 < 4" by simp_all
  then show "B + (q - B) mod 4 \<in> {B..<E}" using assms(1) by auto
qed

lemma set_pairs: "set [(n, x). x \<leftarrow> xs, n \<leftarrow> ns] = set ns \<times> set xs"
  by auto

lemma ccf_cells_iff: "k \<in> set ccf_cells \<longleftrightarrow> fst k \<in> {0..5} \<and> snd k \<in> {0..3}"
proof -
  have "set ccf_cells = set [0, 1, 2, 3, 4, 5 :: int] \<times> set [0, 1, 2, 3 :: int]"
    unfolding ccf_cells_def by (rule set_pairs)
  then have "k \<in> set ccf_cells \<longleftrightarrow>
      fst k \<in> set [0, 1, 2, 3, 4, 5 :: int] \<and> snd k \<in> set [0, 1, 2, 3 :: int]"
    by (simp only: mem_Times_iff)
  moreover have "set [0, 1, 2, 3, 4, 5 :: int] = {0..5}" "set [0, 1, 2, 3 :: int] = {0..3}"
    by auto
  ultimately show ?thesis by (simp only:)
qed

lemma src_row_cong: "h s = h s' \<Longrightarrow> src_row c s = src_row c s'"
  by (simp add: fun_eq_iff src_row_def Let_def)

lemma av_pixel_cong:
  assumes "data s = data s'" "w s = w s'" "h s = h s'"
  shows "av_pixel c s = av_pixel c s'"
  using assms src_row_cong [OF assms(3), of c]
  by (simp add: fun_eq_iff av_pixel_def fetch_index_def)

lemma ire_sample_cong:
  assumes "black_point v = black_point v'" "white_point v = white_point v'"
  shows "ire_sample c v = ire_sample c v'"
  using assms by (simp add: fun_eq_iff ire_sample_def)

lemma line_sample_cong:
  assumes "black_point v = black_point v'" "white_point v = white_point v'"
    "data s = data s'" "w s = w s'" "h s = h s'" "hue s = hue s'"
  shows "line_sample c v s = line_sample c v' s'"
  unfolding fun_eq_iff line_sample_def
    ire_sample_cong [OF assms(1,2)] av_pixel_cong [OF assms(3,4,5)] assms(6)
  by simp

lemma encoded_cong:
  assumes "black_point v = black_point v'" "white_point v = white_point v'"
    "data s = data s'" "w s = w s'" "h s = h s'" "hue s = hue s'"
  shows "encoded c v s = encoded c v' s'"
  unfolding fun_eq_iff encoded_def line_sample_cong [OF assms]
  by simp

lemma pal_modulate_eq:
  assumes ok: "core_ok c"
  shows "pal_modulate c v s =
     Some (v\<lparr>analog := encoded c v s (if field_initialized s then analog v else analog (setup_field c v)),
              ccf := (\<lambda>k. if k \<in> set ccf_cells
                          then push_bit 7 (sint (burst_sample c (hue s) (fst k) (snd k)))
                          else ccf v k),
              cc_period := 6\<rparr>,
           s\<lparr>field_initialized := True\<rparr>)"
proof -
  note g = core_ok_windows [OF ok]
  define v1 where "v1 = (if field_initialized s then v else setup_field c v)"
  define s1 where "s1 = s\<lparr>field_initialized := True\<rparr>"
  define iccf where "iccf = (\<lambda>k. if fst k \<in> (\<lambda>j. (j + PAL_TOP c) mod 6) ` {0..<PAL_LINES c} \<and>
                   snd k \<in> (\<lambda>j. j AND 3) ` {CB_BEG c..<burst_end c}
                then Some (sint (burst_sample c (hue s1) (fst k) (snd k))) else (Map.empty :: int \<times> int \<rightharpoonup> int) k)"
  have pre: "(if \<not> field_initialized s then (setup_field c v, s\<lparr>field_initialized := True\<rparr>) else (v, s))
      = (v1, s1)"
    by (simp add: v1_def s1_def)
  have loop: "line_loop c v1 s1 (av_start c) (PAL_TOP c) 0 (analog v1) Map.empty =
      Some (encoded c v1 s1 (analog v1), iccf)"
    unfolding line_loop_eq [OF ok order_refl] iccf_def
    by (simp add: fun_eq_iff encoded_def)
  have cells: "\<And>k. k \<in> set ccf_cells \<Longrightarrow> iccf k = Some (sint (burst_sample c (hue s1) (fst k) (snd k)))"
    using group_covered [OF g(9)] quad_covered [OF g(11)]
    by (simp add: iccf_def ccf_cells_iff)
  then have all: "list_all (\<lambda>k. iccf k \<noteq> None) ccf_cells"
    by (simp add: list_all_iff)
  have copy: "ccf_copy iccf (ccf v1) =
      Some (\<lambda>k. if k \<in> set ccf_cells
                 then push_bit 7 (sint (burst_sample c (hue s1) (fst k) (snd k))) else ccf v1 k)"
    using all cells by (auto simp: ccf_copy_def fun_eq_iff)
  have enc: "encoded c v1 s1 = encoded c v s"
    by (rule encoded_cong) (simp_all add: v1_def s1_def setup_field_def)
  have flds: "ccf v1 = ccf v" "hue s1 = hue s" "analog v1 = (if field_initialized s then analog v else analog (setup_field c v))"
    by (simp_all add: v1_def s1_def setup_field_def)
  have "pal_modulate c v s =
      Some (v1\<lparr>analog := encoded c v1 s1 (analog v1),
              ccf := (\<lambda>k. if k \<in> set ccf_cells
                          then push_bit 7 (sint (burst_sample c (hue s1) (fst k) (snd k)))
                          else ccf v1 k),
              cc_period := 6\<rparr>, s1)"
    unfolding pal_modulate_def pre Let_def prod.case av_start_def [symmetric] loop option.case copy
    by simp
  also have "v1\<lparr>analog := encoded c v1 s1 (analog v1),
              ccf := (\<lambda>k. if k \<in> set ccf_cells
                          then push_bit 7 (sint (burst_sample c (hue s1) (fst k) (snd k)))
                          else ccf v1 k),
              cc_period := 6\<rparr> =
            v\<lparr>analog := encoded c v s (if field_initialized s then analog v else analog (setup_field c v)),
              ccf := (\<lambda>k. if k \<in> set ccf_cells
                          then push_bit 7 (sint (burst_sample c (hue s) (fst k) (snd k)))
                          else ccf v k),
              cc_period := 6\<rparr>"
    unfolding enc flds by (simp add: v1_def setup_field_def)
  finally show ?thesis by (simp add: s1_def)
qed

section \<open>Range analysis helpers\<close>

lemma in_int32_between: "in_int32 a \<Longrightarrow> in_int32 b \<Longrightarrow> a \<le> x \<Longrightarrow> x \<le> b \<Longrightarrow> in_int32 x"
  by (simp add: in_int32_def)

lemma scaled_between:
  assumes "a \<le> x" "x \<le> b" "in_int32 (a * k)" "in_int32 (b * k)"
  shows "in_int32 (x * k)"
proof (cases "0 \<le> k")
  case True
  with assms(1,2) have "a * k \<le> x * k" "x * k \<le> b * k" by (simp_all add: mult_right_mono)
  with assms(3,4) show ?thesis by (simp add: in_int32_def)
next
  case False
  then have "k \<le> 0" by simp
  with assms(1,2) have "b * k \<le> x * k" "x * k \<le> a * k" by (simp_all add: mult_right_mono_neg)
  with assms(3,4) show ?thesis by (simp add: in_int32_def)
qed

lemma div_le_self_int: "0 \<le> (m::int) \<Longrightarrow> 0 < k \<Longrightarrow> m div k \<le> m"
  using zdiv_mono2 [of m 1 k] by simp

lemma c_div_110_shrinks: "in_int32 m \<Longrightarrow> in_int32 (c_div m 110)"
proof (cases "0 \<le> m")
  case True
  assume "in_int32 m"
  moreover have "0 \<le> m div 110" "m div 110 \<le> m"
    using True by (simp_all add: pos_imp_zdiv_nonneg_iff div_le_self_int)
  ultimately show ?thesis using True by (simp add: c_div_nonneg in_int32_def)
next
  case False
  assume "in_int32 m"
  moreover have "0 \<le> (- m) div 110" "(- m) div 110 \<le> - m"
    using False by (simp_all add: pos_imp_zdiv_nonneg_iff div_le_self_int)
  moreover have "c_div m 110 = - ((- m) div 110)" using False by (simp add: c_div_def)
  ultimately show ?thesis by (simp add: in_int32_def)
qed

lemma drop_bit_12_shrinks: "in_int32 d \<Longrightarrow> in_int32 (drop_bit 12 d)"
proof -
  assume a: "in_int32 d"
  then have "- 2147483648 \<le> d" "d \<le> 2147483647" by (simp_all add: in_int32_def)
  from zdiv_mono1 [OF this(1), of 4096] zdiv_mono1 [OF this(2), of 4096]
  show ?thesis by (simp add: drop_bit_eq_div in_int32_def)
qed

lemma in_int32_small: "0 \<le> x \<Longrightarrow> x \<le> 2147483647 \<Longrightarrow> in_int32 x"
  by (simp add: in_int32_def)

lemma drop_bit_mono: "(a::int) \<le> b \<Longrightarrow> drop_bit n a \<le> drop_bit n b"
  by (simp add: drop_bit_eq_div zdiv_mono1)

lemma c_div_110_mono:
  assumes "a \<le> b"
  shows "c_div a 110 \<le> c_div b 110"
proof -
  have neg: "\<And>x. x < 0 \<Longrightarrow> c_div x 110 = - ((- x) div 110)"
    by (simp add: c_div_def)
  have pos: "\<And>x. 0 \<le> x \<Longrightarrow> c_div x 110 = x div 110"
    by (simp add: c_div_nonneg)
  consider "0 \<le> a" | "a < 0" "b < 0" | "a < 0" "0 \<le> b" using assms by linarith
  then show ?thesis
  proof cases
    case 1
    with assms show ?thesis by (simp add: pos zdiv_mono1)
  next
    case 2
    with assms have "(- b) div 110 \<le> (- a) div 110" by (intro zdiv_mono1) simp_all
    with 2 show ?thesis by (simp add: neg)
  next
    case 3
    then have "c_div a 110 \<le> 0" "0 \<le> c_div b 110"
      by (simp_all add: neg pos pos_imp_zdiv_nonneg_iff)
    then show ?thesis by simp
  qed
qed

lemma IRE_bounds: "i < 16 \<Longrightarrow> - 17203 \<le> IRE ! i \<and> IRE ! i \<le> 112965"
proof -
  assume "i < 16"
  then have "IRE ! i \<in> set IRE" by (intro nth_mem) (simp add: IRE_def)
  then show ?thesis by (auto simp: IRE_def)
qed

lemma square_sample_bounds:
  "- 17203 \<le> square_sample m p phase \<and> square_sample m p phase \<le> 112965"
proof (cases "14 \<le> p AND 15")
  case True
  then show ?thesis by (simp add: square_sample_def)
next
  case False
  define l :: int where "l = (if p AND 15 = 0 then 1 else if p AND 15 = 13 then 0
        else if c_mod (add32 (p AND 15) phase) 12 < 6 then 1 else 0)"
  define e where "e = src_emphasis m p phase"
  have l01: "l \<in> {0,1}" by (simp add: l_def)
  have e01: "e \<in> {0,1}" using src_emphasis_01 [of m p phase] by (auto simp: e_def)
  have lu: "0 \<le> spec_luma p" "spec_luma p \<le> 3" using luma_range by (simp_all add: spec_luma_def)
  have "0 \<le> push_bit 3 l OR push_bit 2 e OR spec_luma p"
    "push_bit 3 l OR push_bit 2 e OR spec_luma p < 16"
    using ire_index_range [OF l01 e01 lu] ire_index_or [OF l01 e01 lu] by simp_all
  then have "nat (push_bit 3 l OR push_bit 2 e OR spec_luma p) < 16"
    by linarith
  from IRE_bounds [OF this] False show ?thesis
    by (simp add: square_sample_entry spec_voltage_def l_def e_def)
qed

text \<open>
  Where the darkest and the brightest table sum and their products with the
  white point fit 32 bits, no operation of \<open>ire_sample\<close> wraps.
\<close>

lemma ire_sample_sum:
  assumes lo: "in_int32 (BLACK_LEVEL c + black_point v - 68812)"
    and hi: "in_int32 (BLACK_LEVEL c + black_point v + 451860)"
    and plo: "in_int32 ((BLACK_LEVEL c + black_point v - 68812) * white_point v)"
    and phi: "in_int32 ((BLACK_LEVEL c + black_point v + 451860) * white_point v)"
  shows "ire_sample c v p phase =
     drop_bit 12 (c_div
       ((BLACK_LEVEL c + black_point v
          + square_sample (beyond_active c) p (add32 phase 0)
          + square_sample (beyond_active c) p (add32 phase 1)
          + square_sample (beyond_active c) p (add32 phase 2)
          + square_sample (beyond_active c) p (add32 phase 3)) * white_point v) 110)"
proof -
  define m where "m = BLACK_LEVEL c + black_point v"
  define s0 where "s0 = square_sample (beyond_active c) p (add32 phase 0)"
  define s1 where "s1 = square_sample (beyond_active c) p (add32 phase 1)"
  define s2 where "s2 = square_sample (beyond_active c) p (add32 phase 2)"
  define s3 where "s3 = square_sample (beyond_active c) p (add32 phase 3)"
  have s: "- 17203 \<le> s0 \<and> s0 \<le> 112965" "- 17203 \<le> s1 \<and> s1 \<le> 112965"
      "- 17203 \<le> s2 \<and> s2 \<le> 112965" "- 17203 \<le> s3 \<and> s3 \<le> 112965"
    unfolding s0_def s1_def s2_def s3_def by (rule square_sample_bounds)+
  note b = in_int32_between [OF lo hi, folded m_def]
  have i0: "in_int32 m" by (rule b) simp_all
  have i1: "in_int32 (m + s0)" using s by (intro b) simp_all
  have i2: "in_int32 (m + s0 + s1)" using s by (intro b) simp_all
  have i3: "in_int32 (m + s0 + s1 + s2)" using s by (intro b) simp_all
  have r4: "m - 68812 \<le> m + s0 + s1 + s2 + s3" "m + s0 + s1 + s2 + s3 \<le> m + 451860"
    using s by simp_all
  have i4: "in_int32 (m + s0 + s1 + s2 + s3)" using r4 by (intro b)
  have pr: "in_int32 ((m + s0 + s1 + s2 + s3) * white_point v)"
    using scaled_between [OF r4 plo [folded m_def] phi [folded m_def]] .
  have e0: "add32 (BLACK_LEVEL c) (black_point v) = m"
    using i0 by (simp add: add32_id m_def)
  have e1: "add32 m s0 = m + s0" using i1 by (rule add32_id)
  have e2: "add32 (m + s0) s1 = m + s0 + s1" using i2 by (rule add32_id)
  have e3: "add32 (m + s0 + s1) s2 = m + s0 + s1 + s2" using i3 by (rule add32_id)
  have e4: "add32 (m + s0 + s1 + s2) s3 = m + s0 + s1 + s2 + s3" using i4 by (rule add32_id)
  have e5: "mul32 (m + s0 + s1 + s2 + s3) (white_point v) = (m + s0 + s1 + s2 + s3) * white_point v"
    using pr by (rule mul32_id)
  show ?thesis
    unfolding ire_sample_def Let_def s0_def [symmetric] s1_def [symmetric] s2_def [symmetric]
      s3_def [symmetric] e0 e1 e2 e3 e4 e5 m_def [symmetric]
    by (rule refl)
qed

lemma phase_offsets:
  assumes "0 \<le> phase" "phase \<le> 2147483629"
  shows "add32 phase 0 = phase" "add32 phase 1 = phase + 1"
    "add32 phase 2 = phase + 2" "add32 phase 3 = phase + 3"
  using assms by (simp_all add: add32_def wrap32_id in_int32_def)

lemma ire_sample_exact:
  assumes "in_int32 (BLACK_LEVEL c + black_point v - 68812)"
    and "in_int32 (BLACK_LEVEL c + black_point v + 451860)"
    and "in_int32 ((BLACK_LEVEL c + black_point v - 68812) * white_point v)"
    and "in_int32 ((BLACK_LEVEL c + black_point v + 451860) * white_point v)"
    and "0 \<le> phase" "phase \<le> 2147483629"
  shows "ire_sample c v p phase =
     drop_bit 12 (c_div
       ((BLACK_LEVEL c + black_point v
          + square_sample (beyond_active c) p phase
          + square_sample (beyond_active c) p (phase + 1)
          + square_sample (beyond_active c) p (phase + 2)
          + square_sample (beyond_active c) p (phase + 3)) * white_point v) 110)"
  unfolding ire_sample_sum [OF assms(1-4)] phase_offsets [OF assms(5,6)]
  by (rule refl)

lemma ire_sample_no_white: "white_point v = 0 \<Longrightarrow> ire_sample c v p phase = 0"
  by (simp add: ire_sample_def Let_def mul32_def wrap32_def c_div_def)

lemma ire_sample_between:
  assumes "0 \<le> white_point v"
    and lo: "in_int32 (BLACK_LEVEL c + black_point v - 68812)"
    and hi: "in_int32 (BLACK_LEVEL c + black_point v + 451860)"
    and plo: "in_int32 ((BLACK_LEVEL c + black_point v - 68812) * white_point v)"
    and phi: "in_int32 ((BLACK_LEVEL c + black_point v + 451860) * white_point v)"
  shows "drop_bit 12 (c_div ((BLACK_LEVEL c + black_point v - 68812) * white_point v) 110)
           \<le> ire_sample c v p phase \<and>
         ire_sample c v p phase
           \<le> drop_bit 12 (c_div ((BLACK_LEVEL c + black_point v + 451860) * white_point v) 110)"
proof -
  let ?sum = "BLACK_LEVEL c + black_point v
          + square_sample (beyond_active c) p (add32 phase 0)
          + square_sample (beyond_active c) p (add32 phase 1)
          + square_sample (beyond_active c) p (add32 phase 2)
          + square_sample (beyond_active c) p (add32 phase 3)"
  have "BLACK_LEVEL c + black_point v - 68812 \<le> ?sum" "?sum \<le> BLACK_LEVEL c + black_point v + 451860"
    using square_sample_bounds [of "beyond_active c" p "add32 phase 0"]
      square_sample_bounds [of "beyond_active c" p "add32 phase 1"]
      square_sample_bounds [of "beyond_active c" p "add32 phase 2"]
      square_sample_bounds [of "beyond_active c" p "add32 phase 3"]
    by linarith+
  then have "(BLACK_LEVEL c + black_point v - 68812) * white_point v \<le> ?sum * white_point v"
    "?sum * white_point v \<le> (BLACK_LEVEL c + black_point v + 451860) * white_point v"
    using assms(1) by (simp_all add: mult_right_mono)
  then show ?thesis
    unfolding ire_sample_sum [OF lo hi plo phi] by (intro conjI drop_bit_mono c_div_110_mono)
qed

section \<open>Resampling of the source frame\<close>

lemma scaled_index_less:
  assumes "0 \<le> (a::int)" "a < L" "1 \<le> b"
  shows "(a * b) div L < b"
proof (rule ccontr)
  assume "\<not> (a * b) div L < b"
  then have q: "b \<le> (a * b) div L" by simp
  have L: "0 < L" using assms by simp
  have "b * L \<le> ((a * b) div L) * L" using q L by (simp add: mult_right_mono)
  also have "\<dots> \<le> a * b"
    using L by (metis div_mult_mod_eq add_increasing2 order_refl pos_mod_sign)
  also have "\<dots> < L * b" using assms by (simp add: mult_strict_right_mono)
  finally show False by (simp add: mult.commute)
qed

lemma scaled_index_nonneg:
  assumes "0 \<le> (a::int)" "0 \<le> b" "0 \<le> L"
  shows "0 \<le> (a * b) div L"
proof (cases "L = 0")
  case True
  then show ?thesis by simp
next
  case False
  with assms have "0 < L" and "0 \<le> a * b" by simp_all
  then show ?thesis by (simp add: pos_imp_zdiv_nonneg_iff)
qed

lemma product_fits:
  assumes "0 \<le> (a::int)" "a \<le> b" "0 \<le> k" "b * k \<le> 2147483647"
  shows "in_int32 (a * k)"
proof -
  have "a * k \<le> b * k" using assms(2,3) by (rule mult_right_mono)
  moreover have "0 \<le> a * k" using assms(1,3) by simp
  ultimately show ?thesis using assms(4) by (simp add: in_int32_def)
qed

text \<open>
  For a source of at least one row and one column whose products with the
  output dimensions fit 32 bits, the row and the index of the fetch are the
  floor quotients, and the index lies in the frame.
\<close>

lemma fetch_index_floor:
  assumes "1 \<le> w s" "1 \<le> h s"
    and "(PAL_LINES c - 1) * h s \<le> 2147483647"
    and "(AV_LEN c - 1) * w s \<le> 2147483647"
    and "w s * h s \<le> 2147483647"
    and "0 \<le> y" "y < PAL_LINES c" "0 \<le> x" "x < AV_LEN c"
  shows "c_div (mul32 y (h s)) (PAL_LINES c) = (y * h s) div PAL_LINES c"
    and "0 \<le> (y * h s) div PAL_LINES c" and "(y * h s) div PAL_LINES c < h s"
    and "src_row c s y = (y * h s) div PAL_LINES c"
    and "fetch_index c s y x = (x * w s) div AV_LEN c + ((y * h s) div PAL_LINES c) * w s"
    and "0 \<le> fetch_index c s y x" and "fetch_index c s y x < w s * h s"
proof -
  let ?sy = "(y * h s) div PAL_LINES c"
  let ?sx = "(x * w s) div AV_LEN c"
  have w0: "0 \<le> w s" and h0: "0 \<le> h s" using assms(1,2) by simp_all
  have my: "mul32 y (h s) = y * h s"
    using product_fits [OF assms(6) _ h0 assms(3)] assms(7) by (simp add: mul32_id)
  have mx: "mul32 x (w s) = x * w s"
    using product_fits [OF assms(8) _ w0 assms(4)] assms(9) by (simp add: mul32_id)
  show cy: "c_div (mul32 y (h s)) (PAL_LINES c) = ?sy"
    using assms h0 by (simp add: my c_div_nonneg)
  have cx: "c_div (mul32 x (w s)) (AV_LEN c) = ?sx"
    using assms w0 by (simp add: mx c_div_nonneg)
  show y0: "0 \<le> ?sy" using assms h0 by (simp add: scaled_index_nonneg)
  show y1: "?sy < h s" using assms by (simp add: scaled_index_less)
  have x0: "0 \<le> ?sx" using assms w0 by (simp add: scaled_index_nonneg)
  have x1: "?sx < w s" using assms by (simp add: scaled_index_less)
  show row: "src_row c s y = ?sy"
    using y0 y1 by (simp add: src_row_def cy)
  have "?sy + 1 \<le> h s" using y1 by simp
  then have le: "(?sy + 1) * w s \<le> h s * w s"
    using w0 by (rule mult_right_mono)
  have sw0: "0 \<le> ?sy * w s" using y0 w0 by simp
  have hi: "?sx + ?sy * w s < w s * h s"
    using x1 le by (simp add: algebra_simps)
  have msy: "mul32 ?sy (w s) = ?sy * w s"
    using sw0 hi x0 assms(5) by (intro mul32_id) (simp add: in_int32_def)
  have sum: "add32 ?sx (?sy * w s) = ?sx + ?sy * w s"
    using sw0 hi x0 assms(5) by (intro add32_id) (simp add: in_int32_def)
  show idx: "fetch_index c s y x = ?sx + ?sy * w s"
    by (simp add: fetch_index_def cx row msy sum)
  show "0 \<le> fetch_index c s y x" using x0 sw0 by (simp add: idx)
  show "fetch_index c s y x < w s * h s" using hi by (simp add: idx)
qed

section \<open>Properties of \<open>pal_modulate\<close>\<close>

lemma out_sample_eq:
  "core_ok c \<Longrightarrow> out_sample (pal_modulate c v s) i = Some (encoded c v s (start_buffer c v s) i)"
  by (simp add: pal_modulate_eq out_sample_def start_buffer_def)

lemma out_ccf_eq:
  "core_ok c \<Longrightarrow> out_ccf (pal_modulate c v s) k =
     Some (if k \<in> set ccf_cells then push_bit 7 (sint (burst_sample c (hue s) (fst k) (snd k))) else ccf v k)"
  by (simp add: pal_modulate_eq out_ccf_def)

lemma out_period_eq: "core_ok c \<Longrightarrow> out_period (pal_modulate c v s) = Some 6"
  by (simp add: pal_modulate_eq out_period_def)

lemma encoded_at:
  assumes "core_ok c" "0 \<le> y" "y < PAL_LINES c" "0 \<le> t" "t < PAL_HRES c"
  shows "encoded c v s a ((y + PAL_TOP c) * PAL_HRES c + t) =
           line_sample c v s y t (a ((y + PAL_TOP c) * PAL_HRES c + t))"
proof -
  have H: "0 < PAL_HRES c" using core_ok_windows(1) [OF assms(1)] .
  have "(y + PAL_TOP c) * PAL_HRES c \<le> (y + PAL_TOP c) * PAL_HRES c + t"
    "(y + PAL_TOP c) * PAL_HRES c + t < (y + PAL_TOP c) * PAL_HRES c + PAL_HRES c"
    using assms by simp_all
  from row_col [OF H this]
  show ?thesis using assms by (simp add: encoded_def)
qed

lemma encoded_active:
  assumes ok: "core_ok c" and y: "0 \<le> y" "y < PAL_LINES c" and x: "0 \<le> x" "x < AV_LEN c"
  shows "encoded c v s a (av_index c y x) =
           to_schar (ire_sample c v (av_pixel c s y x) (wrap32 (line_phase (y + PAL_TOP c) + 3 * x)))"
proof -
  note g = core_ok_windows [OF ok]
  have t: "0 \<le> x + av_start c" "x + av_start c < PAL_HRES c"
    using g x by simp_all
  have "av_index c y x = (y + PAL_TOP c) * PAL_HRES c + (x + av_start c)"
    by (simp add: av_index_def)
  then show ?thesis
    using x by (simp add: encoded_at [OF ok y t] line_sample_def)
qed

lemma column_phase:
  assumes "0 \<le> x" "x < AV_LEN c" "AV_LEN c \<le> 715827868"
  shows "wrap32 (line_phase n + 3 * x) = line_phase n + 3 * x"
    and "0 \<le> line_phase n + 3 * x" and "line_phase n + 3 * x \<le> 2147483629"
proof -
  show a: "0 \<le> line_phase n + 3 * x" using line_phase_nonneg [of n] assms(1) by simp
  show b: "line_phase n + 3 * x \<le> 2147483629"
    using line_phase_le [of n] assms(2,3) by simp
  from a b show "wrap32 (line_phase n + 3 * x) = line_phase n + 3 * x"
    by (intro wrap32_id) (simp add: in_int32_def)
qed

lemma sample_core_ok: "core_ok sample_core"
  by (simp add: core_ok_def timing_ok_def sample_core_def)

lemma square_sample_zero: "square_sample m 0 phase = 43581"
  by (simp add: square_sample_def IRE_def)

lemma square_sample_white: "square_sample m 48 phase = 112965"
  by (simp add: square_sample_def IRE_def drop_bit_eq_div)



lemma encoded_data_cong:
  assumes "w s' = w s" "h s' = h s" "hue s' = hue s"
    and "\<And>y x. 0 \<le> y \<Longrightarrow> y < PAL_LINES c \<Longrightarrow> 0 \<le> x \<Longrightarrow> x < AV_LEN c \<Longrightarrow>
           av_pixel c s' y x = av_pixel c s y x"
  shows "encoded c v s' a i = encoded c v s a i"
proof (cases "0 \<le> i div PAL_HRES c - PAL_TOP c \<and> i div PAL_HRES c - PAL_TOP c < PAL_LINES c")
  case True
  show ?thesis
  proof (cases "av_start c \<le> i mod PAL_HRES c \<and> i mod PAL_HRES c < av_start c + AV_LEN c")
    case inner: True
    then have "av_pixel c s' (i div PAL_HRES c - PAL_TOP c) (i mod PAL_HRES c - av_start c) =
        av_pixel c s (i div PAL_HRES c - PAL_TOP c) (i mod PAL_HRES c - av_start c)"
      using True by (intro assms(4)) simp_all
    then show ?thesis using True inner by (simp add: encoded_def line_sample_def)
  next
    case False
    then show ?thesis using True assms(3) by (auto simp: encoded_def line_sample_def)
  qed
next
  case False
  then show ?thesis by (auto simp: encoded_def)
qed

lemma in_frame_data_only:
  assumes ok: "core_ok c" and "1 \<le> w s" "1 \<le> h s"
    and "(PAL_LINES c - 1) * h s \<le> 2147483647"
    and "(AV_LEN c - 1) * w s \<le> 2147483647"
    and "w s * h s \<le> 2147483647"
    and agree: "\<forall>k. 0 \<le> k \<and> k < w s * h s \<longrightarrow> d k = data s k"
  shows "out_sample (pal_modulate c v (s\<lparr>data := d\<rparr>)) i = out_sample (pal_modulate c v s) i"
proof -
  let ?s' = "s\<lparr>data := d\<rparr>"
  have pix: "av_pixel c ?s' y x = av_pixel c s y x"
    if "0 \<le> y" "y < PAL_LINES c" "0 \<le> x" "x < AV_LEN c" for y x
  proof -
    note f = fetch_index_floor [OF assms(2-6) that]
    have "fetch_index c ?s' y x = fetch_index c s y x"
      by (simp add: fetch_index_def src_row_def Let_def)
    then show ?thesis using agree f(6,7) by (simp add: av_pixel_def)
  qed
  have "encoded c v ?s' a i = encoded c v s a i" for a
    by (rule encoded_data_cong) (simp_all add: pix)
  then show ?thesis by (simp add: out_sample_eq [OF ok] start_buffer_def)
qed

lemma flat_frame_sample:
  assumes "core_ok c" and "\<forall>i. data s i = p"
    and "0 \<le> y" and "y < PAL_LINES c" and "0 \<le> x" and "x < AV_LEN c"
  shows "out_sample (pal_modulate c v s) (av_index c y x) =
           Some (to_schar (ire_sample c v p (wrap32 (line_phase (y + PAL_TOP c) + 3 * x))))"
  using assms by (simp add: out_sample_eq encoded_active av_pixel_def)

lemma default_sample_white:
  assumes "- 128 \<le> BLACK_LEVEL c" "BLACK_LEVEL c \<le> 127" "black_point v = 0" "white_point v = 100"
  shows "ire_sample c v 48 phase = 100"
proof -
  have r: "in_int32 (BLACK_LEVEL c + black_point v - 68812)"
    "in_int32 (BLACK_LEVEL c + black_point v + 451860)"
    "in_int32 ((BLACK_LEVEL c + black_point v - 68812) * white_point v)"
    "in_int32 ((BLACK_LEVEL c + black_point v + 451860) * white_point v)"
    using assms by (simp_all add: in_int32_def)
  have lo: "45173200 \<le> (BLACK_LEVEL c + 451860) * 100" and hi: "(BLACK_LEVEL c + 451860) * 100 \<le> 45198700"
    using assms(1,2) by simp_all
  have "410665 \<le> (BLACK_LEVEL c + 451860) * 100 div 110" "(BLACK_LEVEL c + 451860) * 100 div 110 \<le> 410897"
    using zdiv_mono1 [OF lo, of 110] zdiv_mono1 [OF hi, of 110] by simp_all
  then have "100 \<le> ((BLACK_LEVEL c + 451860) * 100 div 110) div 4096"
    "((BLACK_LEVEL c + 451860) * 100 div 110) div 4096 \<le> 100"
    using zdiv_mono1 [of 410665 "(BLACK_LEVEL c + 451860) * 100 div 110" 4096]
      zdiv_mono1 [of "(BLACK_LEVEL c + 451860) * 100 div 110" 410897 4096] by simp_all
  then have "drop_bit 12 (c_div ((BLACK_LEVEL c + 451860) * 100) 110) = 100"
    using lo by (simp add: c_div_nonneg drop_bit_eq_div)
  then show ?thesis
    unfolding ire_sample_sum [OF r] square_sample_white using assms(3,4) by (simp add: add.commute)
qed

lemma default_sample_zero:
  assumes "- 128 \<le> BLACK_LEVEL c" "BLACK_LEVEL c \<le> 127" "black_point v = 0" "white_point v = 100"
  shows "ire_sample c v 0 phase = 38"
proof -
  have r: "in_int32 (BLACK_LEVEL c + black_point v - 68812)"
    "in_int32 (BLACK_LEVEL c + black_point v + 451860)"
    "in_int32 ((BLACK_LEVEL c + black_point v - 68812) * white_point v)"
    "in_int32 ((BLACK_LEVEL c + black_point v + 451860) * white_point v)"
    using assms by (simp_all add: in_int32_def)
  have lo: "17419600 \<le> (BLACK_LEVEL c + 174324) * 100" and hi: "(BLACK_LEVEL c + 174324) * 100 \<le> 17445100"
    using assms(1,2) by simp_all
  have "158360 \<le> (BLACK_LEVEL c + 174324) * 100 div 110" "(BLACK_LEVEL c + 174324) * 100 div 110 \<le> 158591"
    using zdiv_mono1 [OF lo, of 110] zdiv_mono1 [OF hi, of 110] by simp_all
  then have "38 \<le> ((BLACK_LEVEL c + 174324) * 100 div 110) div 4096"
    "((BLACK_LEVEL c + 174324) * 100 div 110) div 4096 \<le> 38"
    using zdiv_mono1 [of 158360 "(BLACK_LEVEL c + 174324) * 100 div 110" 4096]
      zdiv_mono1 [of "(BLACK_LEVEL c + 174324) * 100 div 110" 158591 4096] by simp_all
  then have "drop_bit 12 (c_div ((BLACK_LEVEL c + 174324) * 100) 110) = 38"
    using lo by (simp add: c_div_nonneg drop_bit_eq_div)
  then show ?thesis
    unfolding ire_sample_sum [OF r] square_sample_zero using assms(3,4) by (simp add: add.commute)
qed

lemma sample_black_level: "- 128 \<le> BLACK_LEVEL sample_core" "BLACK_LEVEL sample_core \<le> 127"
  by (simp_all add: sample_core_def)

lemma fresh_points: "black_point fresh_crt = 0" "white_point fresh_crt = 100"
  by (simp_all add: fresh_crt_def)

text \<open>
  C10, as stated, holds for every width and height of at least 1. The code
  computes \<open>y * h\<close>, \<open>x * w\<close> and \<open>sy * w\<close> in \<open>int\<close>. In the sample
  configuration, with one row of 15300000 pixels the product
  \<open>141 * 15300000\<close> wraps and the fetch of column 141 of line 0 has index
  \<open>-7580380\<close>: the sample written there is 100, from the code 48 outside
  the buffer, while the buffer holds code 0 only. With one column of 8000000
  pixels the product \<open>289 * 8000000\<close> wraps and the row computed for line
  289 is \<open>-6837818\<close> before the clamps, which change it to 0.
\<close>

theorem oversized_source_fetch:
  "1 \<le> w wide_frame \<and> 1 \<le> h wide_frame \<and> (0::int) \<le> 141 \<and> 141 < AV_LEN sample_core \<and>
   (0::int) \<le> 0 \<and> 0 < PAL_LINES sample_core \<and>
   fetch_index sample_core wide_frame 0 141 = - 7580380 \<and>
   out_sample (pal_modulate sample_core fresh_crt wide_frame) (av_index sample_core 0 141) = Some 100 \<and>
   out_sample (pal_modulate sample_core fresh_crt wide_frame) (av_index sample_core 0 0) = Some 38 \<and>
   1 \<le> w tall_frame \<and> 1 \<le> h tall_frame \<and> (0::int) \<le> 289 \<and> 289 < PAL_LINES sample_core \<and>
   c_div (mul32 289 (h tall_frame)) (PAL_LINES sample_core) = - 6837818 \<and>
   src_row sample_core tall_frame 289 = 0"
proof -
  have g: "1 \<le> w wide_frame" "1 \<le> h wide_frame" "(0::int) \<le> 141" "141 < AV_LEN sample_core"
    "(0::int) \<le> 0" "0 < PAL_LINES sample_core"
    "1 \<le> w tall_frame" "1 \<le> h tall_frame" "(0::int) \<le> 289" "289 < PAL_LINES sample_core"
    by (simp_all add: wide_frame_def tall_frame_def sample_core_def)
  have raw: "c_div (mul32 289 (h tall_frame)) (PAL_LINES sample_core) = - 6837818"
    by (simp add: tall_frame_def sample_core_def mul32_def wrap32_def c_div_def)
  have row: "src_row sample_core tall_frame 289 = 0"
    unfolding src_row_def Let_def raw by (simp add: tall_frame_def)
  have row0: "src_row sample_core wide_frame 0 = 0"
    by (simp add: src_row_def mul32_def wrap32_def c_div_def wide_frame_def sample_core_def)
  have f141: "fetch_index sample_core wide_frame 0 141 = - 7580380"
    unfolding fetch_index_def row0
    by (simp add: wide_frame_def sample_core_def mul32_def add32_def wrap32_def c_div_def)
  have f0: "fetch_index sample_core wide_frame 0 0 = 0"
    unfolding fetch_index_def row0
    by (simp add: wide_frame_def sample_core_def mul32_def add32_def wrap32_def c_div_def)
  have x0: "0 < AV_LEN sample_core" by (simp add: sample_core_def)
  have p141: "av_pixel sample_core wide_frame 0 141 = 48"
    unfolding av_pixel_def f141 by (simp add: wide_frame_def)
  have p0: "av_pixel sample_core wide_frame 0 0 = 0"
    unfolding av_pixel_def f0 by (simp add: wide_frame_def)
  have s141: "out_sample (pal_modulate sample_core fresh_crt wide_frame) (av_index sample_core 0 141)
      = Some 100"
    unfolding out_sample_eq [OF sample_core_ok] encoded_active [OF sample_core_ok g(5,6,3,4)] p141
      default_sample_white [OF sample_black_level fresh_points]
    by (simp add: to_schar_def)
  have s0: "out_sample (pal_modulate sample_core fresh_crt wide_frame) (av_index sample_core 0 0)
      = Some 38"
    unfolding out_sample_eq [OF sample_core_ok] encoded_active [OF sample_core_ok g(5,6,5) x0] p0
      default_sample_zero [OF sample_black_level fresh_points]
    by (simp add: to_schar_def)
  from g raw row f141 s141 s0 show ?thesis by simp
qed

text \<open>
  C10, amended. For a source of width at least 1 and height at least 1
  whose products \<open>(PAL_LINES - 1) * h\<close>, \<open>(AV_LEN - 1) * w\<close> and \<open>w * h\<close>
  fit 32 bits, an output line \<open>y\<close> in \<open>[0, PAL_LINES)\<close> and a destination
  column \<open>x\<close> in \<open>[0, AV_LEN)\<close>: the row \<open>(y * h) / PAL_LINES\<close> the code
  computes is the floor of the quotient and lies in \<open>[0, h)\<close>, so the two
  clamps of \<open>src_row\<close> leave it unchanged; the index
  \<open>(x * w) / AV_LEN + sy * w\<close> of the fetch is the floor expression and
  lies in \<open>[0, w * h)\<close>; the sample \<open>pal_modulate\<close> writes for \<open>y\<close> and
  \<open>x\<close> is computed from the pixel at that index; and the samples
  \<open>pal_modulate\<close> leaves do not depend on what lies outside
  \<open>data[0 .. w * h - 1]\<close>.
\<close>

theorem source_fetch_in_bounds:
  assumes "1 \<le> w s" and "1 \<le> h s"
    and "(PAL_LINES c - 1) * h s \<le> 2147483647"
    and "(AV_LEN c - 1) * w s \<le> 2147483647"
    and "w s * h s \<le> 2147483647"
    and "0 \<le> y" and "y < PAL_LINES c" and "0 \<le> x" and "x < AV_LEN c"
  shows "c_div (mul32 y (h s)) (PAL_LINES c) = (y * h s) div PAL_LINES c \<and>
         0 \<le> c_div (mul32 y (h s)) (PAL_LINES c) \<and> c_div (mul32 y (h s)) (PAL_LINES c) < h s \<and>
         src_row c s y = c_div (mul32 y (h s)) (PAL_LINES c) \<and>
         fetch_index c s y x = (x * w s) div AV_LEN c + ((y * h s) div PAL_LINES c) * w s \<and>
         0 \<le> fetch_index c s y x \<and> fetch_index c s y x < w s * h s \<and>
         (core_ok c \<longrightarrow>
            out_sample (pal_modulate c v s) (av_index c y x) =
              Some (to_schar (ire_sample c v (data s (fetch_index c s y x))
                      (wrap32 (line_phase (y + PAL_TOP c) + 3 * x))))) \<and>
         (core_ok c \<longrightarrow>
            (\<forall>d i. (\<forall>k. 0 \<le> k \<and> k < w s * h s \<longrightarrow> d k = data s k) \<longrightarrow>
               out_sample (pal_modulate c v (s\<lparr>data := d\<rparr>)) i = out_sample (pal_modulate c v s) i))"
proof -
  note f = fetch_index_floor [OF assms]
  have a: "core_ok c \<longrightarrow>
            out_sample (pal_modulate c v s) (av_index c y x) =
              Some (to_schar (ire_sample c v (data s (fetch_index c s y x))
                      (wrap32 (line_phase (y + PAL_TOP c) + 3 * x))))"
    using assms(6-9) by (simp add: out_sample_eq encoded_active av_pixel_def)
  have b: "core_ok c \<longrightarrow>
            (\<forall>d i. (\<forall>k. 0 \<le> k \<and> k < w s * h s \<longrightarrow> d k = data s k) \<longrightarrow>
               out_sample (pal_modulate c v (s\<lparr>data := d\<rparr>)) i = out_sample (pal_modulate c v s) i)"
    using in_frame_data_only [OF _ assms(1-5)] by blast
  from f a b show ?thesis by simp
qed

theorem source_fetch_in_bounds_witness:
  "1 \<le> w (flat_frame 0) \<and> 1 \<le> h (flat_frame 0) \<and>
   (PAL_LINES sample_core - 1) * h (flat_frame 0) \<le> 2147483647 \<and>
   (AV_LEN sample_core - 1) * w (flat_frame 0) \<le> 2147483647 \<and>
   w (flat_frame 0) * h (flat_frame 0) \<le> 2147483647 \<and>
   (0::int) \<le> 289 \<and> 289 < PAL_LINES sample_core \<and> (0::int) \<le> 140 \<and> 140 < AV_LEN sample_core \<and>
   core_ok sample_core \<and>
   src_row sample_core (flat_frame 0) 289 = 239 \<and>
   fetch_index sample_core (flat_frame 0) 289 140 = 61311 \<and>
   w (flat_frame 0) * h (flat_frame 0) = 61440 \<and>
   out_sample (pal_modulate sample_core fresh_crt (flat_frame 0)) (av_index sample_core 289 140) = Some 38 \<and>
   out_sample (pal_modulate sample_core fresh_crt ((flat_frame 0)\<lparr>data := data tall_frame\<rparr>))
     (av_index sample_core 289 140) = Some 38"
proof -
  have g: "1 \<le> w (flat_frame 0)" "1 \<le> h (flat_frame 0)"
    "(PAL_LINES sample_core - 1) * h (flat_frame 0) \<le> 2147483647"
    "(AV_LEN sample_core - 1) * w (flat_frame 0) \<le> 2147483647"
    "w (flat_frame 0) * h (flat_frame 0) \<le> 2147483647"
    "(0::int) \<le> 289" "289 < PAL_LINES sample_core" "(0::int) \<le> 140" "140 < AV_LEN sample_core"
    by (simp_all add: flat_frame_def sample_core_def)
  have r: "(289 * h (flat_frame 0)) div PAL_LINES sample_core = 239"
    by (simp add: flat_frame_def sample_core_def)
  have q: "(140 * w (flat_frame 0)) div AV_LEN sample_core + 239 * w (flat_frame 0) = 61311"
    by (simp add: flat_frame_def sample_core_def)
  have sz: "w (flat_frame 0) * h (flat_frame 0) = 61440" by (simp add: flat_frame_def)
  have ag: "\<forall>k. 0 \<le> k \<and> k < w (flat_frame 0) * h (flat_frame 0) \<longrightarrow>
      data tall_frame k = data (flat_frame 0) k"
    by (simp add: flat_frame_def tall_frame_def)
  have z: "data (flat_frame 0) 61311 = 0" by (simp add: flat_frame_def)
  note t = source_fetch_in_bounds [OF g, of fresh_crt]
  from t r have row: "src_row sample_core (flat_frame 0) 289 = 239" by simp
  from t r q have idx: "fetch_index sample_core (flat_frame 0) 289 140 = 61311" by simp
  from t sample_core_ok
  have "out_sample (pal_modulate sample_core fresh_crt (flat_frame 0)) (av_index sample_core 289 140) =
      Some (to_schar (ire_sample sample_core fresh_crt (data (flat_frame 0)
              (fetch_index sample_core (flat_frame 0) 289 140))
              (wrap32 (line_phase (289 + PAL_TOP sample_core) + 3 * 140))))"
    by blast
  then have one: "out_sample (pal_modulate sample_core fresh_crt (flat_frame 0))
      (av_index sample_core 289 140) = Some 38"
    unfolding idx z default_sample_zero [OF sample_black_level fresh_points]
    by (simp add: to_schar_def)
  from t sample_core_ok ag
  have "out_sample (pal_modulate sample_core fresh_crt ((flat_frame 0)\<lparr>data := data tall_frame\<rparr>))
      (av_index sample_core 289 140) =
    out_sample (pal_modulate sample_core fresh_crt (flat_frame 0)) (av_index sample_core 289 140)"
    by blast
  with one have two: "out_sample (pal_modulate sample_core fresh_crt ((flat_frame 0)\<lparr>data := data tall_frame\<rparr>))
      (av_index sample_core 289 140) = Some 38"
    by simp
  from g sample_core_ok row idx sz one two show ?thesis by simp
qed

lemma encoded_burst:
  assumes ok: "core_ok c" and y: "0 \<le> y" "y < PAL_LINES c" and t: "CB_BEG c \<le> t" "t < burst_end c"
  shows "encoded c v s a ((y + PAL_TOP c) * PAL_HRES c + t) =
           burst_sample c (hue s) ((y + PAL_TOP c) mod 6) (t mod 4)"
proof -
  note g = core_ok_windows [OF ok]
  have t': "0 \<le> t" "t < PAL_HRES c" "\<not> av_start c \<le> t"
    using g t by simp_all
  show ?thesis
    using t t' by (simp add: encoded_at [OF ok y t'(1,2)] line_sample_def and3_mod4)
qed

text \<open>
  C5. After \<open>pal_modulate\<close>, for every group \<open>g\<close> in \<open>[0, 6)\<close> and quadrant
  \<open>q\<close> in \<open>[0, 4)\<close>: some active line and burst position belong to them,
  and for any burst-window position \<open>t\<close> with \<open>t mod 4 = q\<close> on any
  active line whose absolute index is congruent to \<open>g\<close> modulo 6,
  \<open>ccf[g][q]\<close> is the sample at that position shifted left by 7.
  \<open>cc_period\<close> is 6.
\<close>

theorem burst_calibration:
  assumes "core_ok c" and "0 \<le> g" and "g < 6" and "0 \<le> q" and "q < 4"
  shows "(\<exists>y t. 0 \<le> y \<and> y < PAL_LINES c \<and> CB_BEG c \<le> t \<and> t < burst_end c \<and>
            (y + PAL_TOP c) mod 6 = g \<and> t mod 4 = q) \<and>
         (\<forall>y t. 0 \<le> y \<and> y < PAL_LINES c \<and> CB_BEG c \<le> t \<and> t < burst_end c \<and>
            (y + PAL_TOP c) mod 6 = g \<and> t mod 4 = q \<longrightarrow>
            (\<exists>b. out_sample (pal_modulate c v s) ((y + PAL_TOP c) * PAL_HRES c + t) = Some b \<and>
                 out_ccf (pal_modulate c v s) (g, q) = Some (push_bit 7 (sint b)))) \<and>
         out_period (pal_modulate c v s) = Some 6"
proof (intro conjI allI impI)
  note k = core_ok_windows [OF assms(1)]
  from group_covered [OF k(9) assms(2,3), of "PAL_TOP c"]
  obtain y where "y \<in> {0..<PAL_LINES c}" "g = (y + PAL_TOP c) mod 6" by auto
  moreover from quad_covered [OF k(11) assms(4,5)]
  obtain t where "t \<in> {CB_BEG c..<burst_end c}" "q = t AND 3" by auto
  ultimately show "\<exists>y t. 0 \<le> y \<and> y < PAL_LINES c \<and> CB_BEG c \<le> t \<and> t < burst_end c \<and>
            (y + PAL_TOP c) mod 6 = g \<and> t mod 4 = q"
    by (auto simp: and3_mod4)
next
  fix y t
  assume a: "0 \<le> y \<and> y < PAL_LINES c \<and> CB_BEG c \<le> t \<and> t < burst_end c \<and>
            (y + PAL_TOP c) mod 6 = g \<and> t mod 4 = q"
  have cell: "(g, q) \<in> set ccf_cells" using assms by (simp add: ccf_cells_iff)
  have "out_sample (pal_modulate c v s) ((y + PAL_TOP c) * PAL_HRES c + t) =
      Some (burst_sample c (hue s) g q)"
    using assms(1) a by (auto simp: out_sample_eq encoded_burst)
  moreover have "out_ccf (pal_modulate c v s) (g, q) =
      Some (push_bit 7 (sint (burst_sample c (hue s) g q)))"
    using assms(1) cell by (simp add: out_ccf_eq)
  ultimately show "\<exists>b. out_sample (pal_modulate c v s) ((y + PAL_TOP c) * PAL_HRES c + t) = Some b \<and>
                 out_ccf (pal_modulate c v s) (g, q) = Some (push_bit 7 (sint b))"
    by simp
next
  show "out_period (pal_modulate c v s) = Some 6"
    using assms(1) by (simp add: out_period_eq)
qed

lemma sample_burst_value: "burst_sample sample_core 0 3 1 = 252"
  by (simp add: burst_sample_def burst_amp_def sample_core_def tri14_def c_div_def
      drop_bit_eq_div to_schar_def)

theorem burst_calibration_witness:
  "core_ok sample_core \<and> (0::int) \<le> 3 \<and> (3::int) < 6 \<and> (0::int) \<le> 1 \<and> (1::int) < 4 \<and>
   (0::int) \<le> 0 \<and> 0 < PAL_LINES sample_core \<and> CB_BEG sample_core \<le> 45 \<and> 45 < burst_end sample_core \<and>
   (0 + PAL_TOP sample_core) mod 6 = 3 \<and> (45::int) mod 4 = 1 \<and>
   out_sample (pal_modulate sample_core fresh_crt (flat_frame 0))
     ((0 + PAL_TOP sample_core) * PAL_HRES sample_core + 45) = Some 252 \<and>
   out_ccf (pal_modulate sample_core fresh_crt (flat_frame 0)) (3, 1) = Some (- 512) \<and>
   out_period (pal_modulate sample_core fresh_crt (flat_frame 0)) = Some 6"
proof -
  have r: "(0::int) \<le> 3" "(3::int) < 6" "(0::int) \<le> 1" "(1::int) < 4" by simp_all
  have h: "(0::int) \<le> 0 \<and> 0 < PAL_LINES sample_core \<and> CB_BEG sample_core \<le> 45 \<and>
      45 < burst_end sample_core \<and> (0 + PAL_TOP sample_core) mod 6 = 3 \<and> (45::int) mod 4 = 1"
    by (simp add: sample_core_def burst_end_def)
  have y: "(0::int) \<le> 0" "0 < PAL_LINES sample_core" and t: "CB_BEG sample_core \<le> 45" "45 < burst_end sample_core"
    using h by simp_all
  have "burst_sample sample_core (hue (flat_frame 0)) ((0 + PAL_TOP sample_core) mod 6) (45 mod 4) = 252"
    using h sample_burst_value by (simp add: flat_frame_def)
  then have b: "out_sample (pal_modulate sample_core fresh_crt (flat_frame 0))
     ((0 + PAL_TOP sample_core) * PAL_HRES sample_core + 45) = Some 252"
    unfolding out_sample_eq [OF sample_core_ok] encoded_burst [OF sample_core_ok y t]
    by simp
  from burst_calibration [OF sample_core_ok r, of fresh_crt "flat_frame 0"]
  have every: "\<forall>y t. 0 \<le> y \<and> y < PAL_LINES sample_core \<and> CB_BEG sample_core \<le> t \<and>
            t < burst_end sample_core \<and> (y + PAL_TOP sample_core) mod 6 = 3 \<and> t mod 4 = 1 \<longrightarrow>
            (\<exists>b. out_sample (pal_modulate sample_core fresh_crt (flat_frame 0))
                    ((y + PAL_TOP sample_core) * PAL_HRES sample_core + t) = Some b \<and>
                 out_ccf (pal_modulate sample_core fresh_crt (flat_frame 0)) (3, 1)
                   = Some (push_bit 7 (sint b)))"
    and per: "out_period (pal_modulate sample_core fresh_crt (flat_frame 0)) = Some 6"
    by blast+
  from every [rule_format, of 0 45] h
  obtain b' where b': "out_sample (pal_modulate sample_core fresh_crt (flat_frame 0))
                    ((0 + PAL_TOP sample_core) * PAL_HRES sample_core + 45) = Some b'"
    and c': "out_ccf (pal_modulate sample_core fresh_crt (flat_frame 0)) (3, 1)
                   = Some (push_bit 7 (sint b'))"
    by blast
  from b b' have "b' = 252" by simp
  with c' have "out_ccf (pal_modulate sample_core fresh_crt (flat_frame 0)) (3, 1) = Some (- 512)"
    by simp
  with sample_core_ok r h b per show ?thesis by simp
qed

lemma line_sample_again:
  assumes "\<not> (av_start c \<le> t \<and> t < av_start c + AV_LEN c)" "hue s' = hue s"
  shows "line_sample c v' s' y t (line_sample c v s y t old) = line_sample c v s y t old"
  using assms by (auto simp: line_sample_def)

lemma inactive_index:
  assumes ok: "core_ok c"
    and i: "\<forall>y x. 0 \<le> y \<and> y < PAL_LINES c \<and> 0 \<le> x \<and> x < AV_LEN c \<longrightarrow> i \<noteq> av_index c y x"
    and row: "0 \<le> i div PAL_HRES c - PAL_TOP c" "i div PAL_HRES c - PAL_TOP c < PAL_LINES c"
  shows "\<not> (av_start c \<le> i mod PAL_HRES c \<and> i mod PAL_HRES c < av_start c + AV_LEN c)"
proof
  assume a: "av_start c \<le> i mod PAL_HRES c \<and> i mod PAL_HRES c < av_start c + AV_LEN c"
  have "i = av_index c (i div PAL_HRES c - PAL_TOP c) (i mod PAL_HRES c - av_start c)"
    by (simp add: av_index_def)
  with i row a show False by (smt (verit))
qed

lemma encoded_other_rows:
  "\<not> (0 \<le> i div PAL_HRES c - PAL_TOP c \<and> i div PAL_HRES c - PAL_TOP c < PAL_LINES c) \<Longrightarrow>
     encoded c v s a i = a i"
  by (auto simp: encoded_def)

lemma encoded_again:
  assumes ok: "core_ok c" and hu: "hue s' = hue s"
    and i: "\<forall>y x. 0 \<le> y \<and> y < PAL_LINES c \<and> 0 \<le> x \<and> x < AV_LEN c \<longrightarrow> i \<noteq> av_index c y x"
  shows "encoded c v' s' (encoded c v s a) i = encoded c v s a i"
proof (cases "0 \<le> i div PAL_HRES c - PAL_TOP c \<and> i div PAL_HRES c - PAL_TOP c < PAL_LINES c")
  case True
  then have "\<not> (av_start c \<le> i mod PAL_HRES c \<and> i mod PAL_HRES c < av_start c + AV_LEN c)"
    using inactive_index [OF ok i] by simp
  from line_sample_again [OF this hu] True
  show ?thesis
    unfolding encoded_def [of c v' s'] by (simp add: encoded_def)
next
  case False
  show ?thesis by (simp only: encoded_other_rows [OF False])
qed

lemma encoded_untouched: "\<not> rewritten c j \<Longrightarrow> encoded c v s a j = a j"
  by (auto simp: encoded_def line_sample_def rewritten_def)

text \<open>
  C6. The first call leaves \<open>field_initialized\<close> set. A second call on the
  structures it left leaves every sample that is not written by the column
  loop with the value it had after the first call: the sync-to-burst and
  burst windows receive the same values again. \<open>setup_field\<close> is not run
  again: with the flag set, every sample outside the three windows the line
  loop writes keeps what the buffer held, whatever that is, whereas
  \<open>setup_field\<close> would overwrite it with the sync skeleton.
\<close>

theorem second_pass_keeps_skeleton:
  assumes "core_ok c"
    and "\<forall>y x. 0 \<le> y \<and> y < PAL_LINES c \<and> 0 \<le> x \<and> x < AV_LEN c \<longrightarrow> i \<noteq> av_index c y x"
  shows "\<exists>v1 s1. pal_modulate c v s = Some (v1, s1) \<and> field_initialized s1 \<and>
           out_sample (pal_modulate c v1 s1) i = Some (analog v1 i) \<and>
           (\<forall>b j. \<not> rewritten c j \<longrightarrow>
              out_sample (pal_modulate c (v1\<lparr>analog := b\<rparr>) s1) j = Some (b j))"
proof -
  from pal_modulate_eq [OF assms(1), of v s]
  obtain v1 s1 where r: "pal_modulate c v s = Some (v1, s1)"
    and v1: "analog v1 = encoded c v s (start_buffer c v s)"
    and s1: "s1 = s\<lparr>field_initialized := True\<rparr>"
    by (auto simp: start_buffer_def)
  have init: "field_initialized s1" by (simp add: s1)
  then have sb: "\<And>u. start_buffer c u s1 = analog u" by (simp add: start_buffer_def)
  have hu: "hue s1 = hue s" by (simp add: s1)
  have "out_sample (pal_modulate c v1 s1) i = Some (encoded c v1 s1 (analog v1) i)"
    by (simp add: out_sample_eq [OF assms(1)] sb)
  also have "encoded c v1 s1 (analog v1) i = analog v1 i"
    unfolding v1 by (rule encoded_again [OF assms(1) hu assms(2)])
  finally have keep: "out_sample (pal_modulate c v1 s1) i = Some (analog v1 i)" .
  have skip: "\<forall>b j. \<not> rewritten c j \<longrightarrow>
      out_sample (pal_modulate c (v1\<lparr>analog := b\<rparr>) s1) j = Some (b j)"
    by (simp add: out_sample_eq [OF assms(1)] sb encoded_untouched)
  from r init keep skip show ?thesis by blast
qed

theorem second_pass_keeps_skeleton_witness:
  "core_ok sample_core \<and>
   out_sample (pal_modulate sample_core fresh_crt (flat_frame 0))
     ((3 + PAL_TOP sample_core) * PAL_HRES sample_core + 45) = Some 239 \<and>
   out_sample (pal_modulate_twice sample_core fresh_crt (flat_frame 0))
     ((3 + PAL_TOP sample_core) * PAL_HRES sample_core + 45) = Some 239 \<and>
   out_sample (pal_modulate sample_core fresh_crt (flat_frame 0)) 0 = Some 219 \<and>
   out_sample (pal_modulate_refilled sample_core fresh_crt (flat_frame 0) (\<lambda>i. 0)) 0 = Some 0"
proof -
  let ?i = "(3 + PAL_TOP sample_core) * PAL_HRES sample_core + 45"
  have na: "\<forall>y x. 0 \<le> y \<and> y < PAL_LINES sample_core \<and> 0 \<le> x \<and> x < AV_LEN sample_core \<longrightarrow>
      ?i \<noteq> av_index sample_core y x"
  proof (intro allI impI notI)
    fix y x :: int
    assume a: "0 \<le> y \<and> y < PAL_LINES sample_core \<and> 0 \<le> x \<and> x < AV_LEN sample_core"
      and e: "?i = av_index sample_core y x"
    from e have "x + y * 400 = 1149"
      by (simp add: av_index_def av_start_def sample_core_def)
    moreover from a have "0 \<le> x" "x < 282" by (simp_all add: sample_core_def)
    ultimately show False by (cases "y \<le> 2") auto
  qed
  have y: "(0::int) \<le> 3" "3 < PAL_LINES sample_core" and t: "CB_BEG sample_core \<le> 45" "45 < burst_end sample_core"
    by (simp_all add: sample_core_def burst_end_def)
  have "burst_sample sample_core (hue (flat_frame 0)) ((3 + PAL_TOP sample_core) mod 6) (45 mod 4) = 239"
    by (simp add: flat_frame_def burst_sample_def burst_amp_def sample_core_def tri14_def c_div_def
      drop_bit_eq_div to_schar_def)
  then have b: "out_sample (pal_modulate sample_core fresh_crt (flat_frame 0)) ?i = Some 239"
    unfolding out_sample_eq [OF sample_core_ok] encoded_burst [OF sample_core_ok y t]
    by simp
  have nr: "\<not> rewritten sample_core 0" by (simp add: rewritten_def sample_core_def)
  have "analog (setup_field sample_core fresh_crt) (0 * PAL_HRES sample_core + 0) =
      to_schar (waveform sample_core (line_kind_of 0) 0)"
    by (rule setup_field_sample [OF sample_timing_ok]) (simp_all add: sample_core_def)
  also have "\<dots> = 219"
    by (simp add: waveform_def line_kind_of_def percent_def sample_core_def to_schar_def)
  finally have sk: "analog (setup_field sample_core fresh_crt) 0 = 219" by simp
  have first: "out_sample (pal_modulate sample_core fresh_crt (flat_frame 0)) 0 = Some 219"
    by (simp add: out_sample_eq [OF sample_core_ok] encoded_untouched [OF nr] start_buffer_def
        flat_frame_def sk)
  from second_pass_keeps_skeleton [OF sample_core_ok na, of fresh_crt "flat_frame 0"]
  obtain v1 s1 where r: "pal_modulate sample_core fresh_crt (flat_frame 0) = Some (v1, s1)"
    and k: "out_sample (pal_modulate sample_core v1 s1) ?i = Some (analog v1 ?i)"
    and n: "\<forall>b j. \<not> rewritten sample_core j \<longrightarrow>
              out_sample (pal_modulate sample_core (v1\<lparr>analog := b\<rparr>) s1) j = Some (b j)"
    by blast
  from r b have "analog v1 ?i = 239" by (simp add: out_sample_def)
  with r k have twice: "out_sample (pal_modulate_twice sample_core fresh_crt (flat_frame 0)) ?i = Some 239"
    by (simp add: pal_modulate_twice_def)
  from n nr have "out_sample (pal_modulate sample_core (v1\<lparr>analog := (\<lambda>i. 0)\<rparr>) s1) 0 = Some 0"
    by blast
  with r have again: "out_sample (pal_modulate_refilled sample_core fresh_crt (flat_frame 0) (\<lambda>i. 0)) 0
      = Some 0"
    by (simp add: pal_modulate_refilled_def)
  from sample_core_ok b twice first again show ?thesis by blast
qed

text \<open>
  Every write of a run falls inside the buffer of \<open>PAL_HRES * PAL_VRES\<close>
  samples: an offset outside it keeps its value.
\<close>

lemma index_in_rows:
  assumes "0 < (H::int)" "0 \<le> i div H" "i div H < V"
  shows "0 \<le> i \<and> i < H * V"
proof -
  have i: "i = H * (i div H) + i mod H" by simp
  have m: "0 \<le> i mod H" "i mod H < H" using assms(1) by simp_all
  have "0 \<le> H * (i div H)" using assms(1,2) by simp
  moreover have "H * (i div H + 1) \<le> H * V"
    using assms(1,3) by (intro mult_left_mono) simp_all
  then have "H * (i div H) + H \<le> H * V" by (simp add: distrib_left)
  ultimately show ?thesis using i m by linarith
qed

lemma encoded_outside:
  assumes "core_ok c" "\<not> (0 \<le> i \<and> i < PAL_HRES c * PAL_VRES c)"
  shows "encoded c v s a i = a i"
proof (rule encoded_other_rows, rule notI)
  note g = core_ok_windows [OF assms(1)]
  assume "0 \<le> i div PAL_HRES c - PAL_TOP c \<and> i div PAL_HRES c - PAL_TOP c < PAL_LINES c"
  then have "0 \<le> i div PAL_HRES c" "i div PAL_HRES c < PAL_VRES c" using g by simp_all
  from index_in_rows [OF g(1) this] assms(2) show False by simp
qed

lemma setup_field_outside:
  assumes "timing_ok c" "\<not> (0 \<le> i \<and> i < PAL_HRES c * PAL_VRES c)"
  shows "analog (setup_field c v) i = analog v i"
  using assms(2) by (auto simp: setup_field_def setup_lines_eq [OF assms(1)] mult.commute)

lemma pal_modulate_in_buffer:
  assumes "core_ok c" "\<not> (0 \<le> i \<and> i < PAL_HRES c * PAL_VRES c)"
  shows "out_sample (pal_modulate c v s) i = Some (analog v i)"
  using setup_field_outside [OF core_ok_windows(12) [OF assms(1)] assms(2)]
  by (simp add: out_sample_eq [OF assms(1)] encoded_outside [OF assms] start_buffer_def)

lemma zero_frame_sample:
  assumes "core_ok c" and "- 128 \<le> BLACK_LEVEL c" and "BLACK_LEVEL c \<le> 127"
    and "black_point v = 0" and "white_point v = 100"
    and "1 \<le> w s" and "1 \<le> h s"
    and "(PAL_LINES c - 1) * h s \<le> 2147483647"
    and "(AV_LEN c - 1) * w s \<le> 2147483647"
    and "w s * h s \<le> 2147483647"
    and "\<forall>i. 0 \<le> i \<and> i < w s * h s \<longrightarrow> data s i = 0"
    and "0 \<le> y" and "y < PAL_LINES c" and "0 \<le> x" and "x < AV_LEN c"
  shows "out_sample (pal_modulate c v s) (av_index c y x) = Some 38"
proof -
  note f = fetch_index_floor [OF assms(6-10,12-15)]
  have pix: "av_pixel c s y x = 0" using assms(11) f(6,7) by (simp add: av_pixel_def)
  show ?thesis
    unfolding out_sample_eq [OF assms(1)] encoded_active [OF assms(1,12-15)] pix
      default_sample_zero [OF assms(2-5)]
    by (simp add: to_schar_def)
qed

lemma white_frame_sample:
  assumes "core_ok c" and "- 128 \<le> BLACK_LEVEL c" and "BLACK_LEVEL c \<le> 127"
    and "black_point v = 0" and "white_point v = 100"
    and "\<forall>i. data s i = 48"
    and "0 \<le> y" and "y < PAL_LINES c" and "0 \<le> x" and "x < AV_LEN c"
  shows "out_sample (pal_modulate c v s) (av_index c y x) = Some 100"
  unfolding flat_frame_sample [OF assms(1,6-10)] default_sample_white [OF assms(2-5)]
  by (simp add: to_schar_def)

text \<open>
  C7, as stated, makes the uniform value of an all-zero frame the peak-white
  level. In the sample configuration (white at 100, black point 0, white
  point 100) the all-zero frame gives 38, while the frame of code 0x30
  gives 100.
\<close>

theorem zero_frame_is_grey:
  "out_sample (pal_modulate sample_core fresh_crt (flat_frame 0)) (av_index sample_core 0 0) = Some 38 \<and>
   out_sample (pal_modulate sample_core fresh_crt (flat_frame 48)) (av_index sample_core 0 0) = Some 100 \<and>
   to_schar (WHITE_LEVEL sample_core) = 100"
proof -
  have g: "1 \<le> w (flat_frame 0)" "1 \<le> h (flat_frame 0)"
    "(PAL_LINES sample_core - 1) * h (flat_frame 0) \<le> 2147483647"
    "(AV_LEN sample_core - 1) * w (flat_frame 0) \<le> 2147483647"
    "w (flat_frame 0) * h (flat_frame 0) \<le> 2147483647"
    "\<forall>i. 0 \<le> i \<and> i < w (flat_frame 0) * h (flat_frame 0) \<longrightarrow> data (flat_frame 0) i = 0"
    by (simp_all add: flat_frame_def sample_core_def)
  have r: "(0::int) \<le> 0" "0 < PAL_LINES sample_core" "0 < AV_LEN sample_core"
    by (simp_all add: sample_core_def)
  have grey: "out_sample (pal_modulate sample_core fresh_crt (flat_frame 0)) (av_index sample_core 0 0)
      = Some 38"
    by (rule zero_frame_sample [OF sample_core_ok sample_black_level fresh_points g r(1,2,1,3)])
  have w: "\<forall>i. data (flat_frame 48) i = 48" by (simp add: flat_frame_def)
  have white: "out_sample (pal_modulate sample_core fresh_crt (flat_frame 48)) (av_index sample_core 0 0)
      = Some 100"
    by (rule white_frame_sample [OF sample_core_ok sample_black_level fresh_points w r(1,2,1,3)])
  from grey white show ?thesis by (simp add: to_schar_def sample_core_def)
qed

text \<open>
  C7, amended. For a source whose every pixel code is 0, encoded at the
  default settings (black point 0, white point 100), every active-video
  sample (every column of every active line) has the same value, the
  \<open>signed char\<close> of \<open>((BLACK_LEVEL + 4 * 43581) * 100 / 110) >> 12\<close>, which
  is 38: the four-phase sum does not depend on the phase, because
  \<open>square_sample\<close> returns table entry 8 (43581, the first entry of the
  upper row) for code 0 at every phase. That value is not the peak-white
  level: at the same settings a source of code 0x30 (table entry 11,
  112965, the largest entry of the table, at every phase) gives 100. The black level of the header is a
  \<open>signed char\<close> level, and the source has at least one row and one column
  and dimensions whose products \<open>(PAL_LINES - 1) * h\<close>, \<open>(AV_LEN - 1) * w\<close>
  and \<open>w * h\<close> fit 32 bits.
\<close>

theorem zero_frame_uniform:
  assumes "core_ok c" and "- 128 \<le> BLACK_LEVEL c" and "BLACK_LEVEL c \<le> 127"
    and "black_point v = 0" and "white_point v = 100"
    and "1 \<le> w s" and "1 \<le> h s"
    and "(PAL_LINES c - 1) * h s \<le> 2147483647"
    and "(AV_LEN c - 1) * w s \<le> 2147483647"
    and "w s * h s \<le> 2147483647"
    and "\<forall>i. 0 \<le> i \<and> i < w s * h s \<longrightarrow> data s i = 0"
    and "0 \<le> y" and "y < PAL_LINES c" and "0 \<le> x" and "x < AV_LEN c"
  shows "out_sample (pal_modulate c v s) (av_index c y x) = Some 38 \<and>
         to_schar (drop_bit 12 (c_div
           ((BLACK_LEVEL c + black_point v + 4 * (IRE ! 8)) * white_point v) 110)) = 38 \<and>
         (\<forall>phase. square_sample (beyond_active c) 0 phase = IRE ! 8) \<and> IRE ! 8 = 43581 \<and>
         out_sample (pal_modulate c v (s\<lparr>data := (\<lambda>i. 48)\<rparr>)) (av_index c y x) = Some 100 \<and>
         (\<forall>phase. square_sample (beyond_active c) 48 phase = IRE ! 11) \<and> IRE ! 11 = 112965 \<and>
         Max (set IRE) = IRE ! 11"
proof -
  have e8: "IRE ! 8 = 43581" and e11: "IRE ! 11 = 112965" by (simp_all add: IRE_def)
  have mx: "Max (set IRE) = 112965" by (simp add: IRE_def)
  have grey: "out_sample (pal_modulate c v s) (av_index c y x) = Some 38"
    by (rule zero_frame_sample [OF assms])
  have r: "in_int32 (BLACK_LEVEL c + black_point v - 68812)"
    "in_int32 (BLACK_LEVEL c + black_point v + 451860)"
    "in_int32 ((BLACK_LEVEL c + black_point v - 68812) * white_point v)"
    "in_int32 ((BLACK_LEVEL c + black_point v + 451860) * white_point v)"
    using assms(2-5) by (simp_all add: in_int32_def)
  have "ire_sample c v 0 0 = drop_bit 12 (c_div
           ((BLACK_LEVEL c + black_point v + 4 * 43581) * white_point v) 110)"
    unfolding ire_sample_sum [OF r] square_sample_zero by (simp add: add.commute)
  then have lev: "to_schar (drop_bit 12 (c_div
           ((BLACK_LEVEL c + black_point v + 4 * (IRE ! 8)) * white_point v) 110)) = 38"
    unfolding e8 using default_sample_zero [OF assms(2-5), of 0] by (simp add: to_schar_def)
  have w: "\<forall>i. data (s\<lparr>data := (\<lambda>i. 48)\<rparr>) i = 48" by simp
  have white: "out_sample (pal_modulate c v (s\<lparr>data := (\<lambda>i. 48)\<rparr>)) (av_index c y x) = Some 100"
    by (rule white_frame_sample [OF assms(1-5) w assms(12-15)])
  show ?thesis
    using grey lev white by (simp add: square_sample_zero square_sample_white e8 e11 mx)
qed

theorem zero_frame_uniform_witness:
  "core_ok sample_core \<and> - 128 \<le> BLACK_LEVEL sample_core \<and> BLACK_LEVEL sample_core \<le> 127 \<and>
   black_point fresh_crt = 0 \<and> white_point fresh_crt = 100 \<and>
   1 \<le> w (flat_frame 0) \<and> 1 \<le> h (flat_frame 0) \<and>
   (PAL_LINES sample_core - 1) * h (flat_frame 0) \<le> 2147483647 \<and>
   (AV_LEN sample_core - 1) * w (flat_frame 0) \<le> 2147483647 \<and>
   w (flat_frame 0) * h (flat_frame 0) \<le> 2147483647 \<and>
   (0::int) \<le> 100 \<and> 100 < PAL_LINES sample_core \<and> (0::int) \<le> 200 \<and> 200 < AV_LEN sample_core \<and>
   out_sample (pal_modulate sample_core fresh_crt (flat_frame 0)) (av_index sample_core 100 200) = Some 38 \<and>
   square_sample (beyond_active sample_core) 0 5 = 43581 \<and>
   out_sample (pal_modulate sample_core fresh_crt ((flat_frame 0)\<lparr>data := (\<lambda>i. 48)\<rparr>))
     (av_index sample_core 100 200) = Some 100"
proof -
  have g: "1 \<le> w (flat_frame 0)" "1 \<le> h (flat_frame 0)"
    "(PAL_LINES sample_core - 1) * h (flat_frame 0) \<le> 2147483647"
    "(AV_LEN sample_core - 1) * w (flat_frame 0) \<le> 2147483647"
    "w (flat_frame 0) * h (flat_frame 0) \<le> 2147483647"
    "\<forall>i. 0 \<le> i \<and> i < w (flat_frame 0) * h (flat_frame 0) \<longrightarrow> data (flat_frame 0) i = 0"
    "(0::int) \<le> 100" "100 < PAL_LINES sample_core" "(0::int) \<le> 200" "200 < AV_LEN sample_core"
    by (simp_all add: flat_frame_def sample_core_def)
  note t = zero_frame_uniform [OF sample_core_ok sample_black_level fresh_points g]
  from t have a: "out_sample (pal_modulate sample_core fresh_crt (flat_frame 0))
      (av_index sample_core 100 200) = Some 38"
    by blast
  from t have b: "square_sample (beyond_active sample_core) 0 5 = 43581" by simp
  from t have c: "out_sample (pal_modulate sample_core fresh_crt ((flat_frame 0)\<lparr>data := (\<lambda>i. 48)\<rparr>))
     (av_index sample_core 100 200) = Some 100"
    by blast
  from sample_core_ok sample_black_level fresh_points g(1-5,7-10) a b c show ?thesis by simp
qed

lemma sint_to_schar: "- 128 \<le> x \<Longrightarrow> x \<le> 127 \<Longrightarrow> sint (to_schar x) = x"
  by (simp add: to_schar_def sint_sbintrunc' signed_take_bit_int_eq_self)

lemma level_ok_to_schar:
  assumes "levels_ok c" "SYNC_LEVEL c \<le> x" "x \<le> WHITE_LEVEL c"
  shows "level_ok c (to_schar x)"
proof -
  have "- 128 \<le> x" "x \<le> 127" using assms by (simp_all add: levels_ok_def)
  then show ?thesis using assms(2,3) by (simp add: level_ok_def sint_to_schar)
qed

lemma waveform_level: "levels_ok c \<Longrightarrow> level_ok c (to_schar (waveform c k t))"
  by (rule level_ok_to_schar) (auto simp: waveform_def levels_ok_def split: line_kind.splits)

lemma shifted_quotient_upper:
  assumes "drop_bit 12 (c_div X 110) \<le> 127"
  shows "X < 57671680"
proof (rule ccontr)
  assume "\<not> X < 57671680"
  then have x: "57671680 \<le> X" by simp
  then have "c_div X 110 = X div 110" by (simp add: c_div_nonneg)
  moreover have "524288 \<le> X div 110" using zdiv_mono1 [OF x, of 110] by simp
  ultimately have "128 \<le> drop_bit 12 (c_div X 110)"
    using zdiv_mono1 [of 524288 "X div 110" 4096] by (simp add: drop_bit_eq_div)
  with assms show False by simp
qed

lemma shifted_quotient_lower:
  assumes "- 128 \<le> drop_bit 12 (c_div X 110)"
  shows "- 57671790 < X"
proof (rule ccontr)
  assume "\<not> - 57671790 < X"
  then have x: "57671790 \<le> - X" by simp
  then have "c_div X 110 = - ((- X) div 110)" by (simp add: c_div_def)
  moreover have "524289 \<le> (- X) div 110" using zdiv_mono1 [OF x, of 110] by simp
  ultimately have "c_div X 110 \<le> - 524289" by simp
  then have "drop_bit 12 (c_div X 110) \<le> - 129"
    using zdiv_mono1 [of "c_div X 110" "- 524289" 4096] by (simp add: drop_bit_eq_div)
  with assms show False by simp
qed

text \<open>
  Where the white point is not negative and the darkest and the brightest
  table sum stay between two \<open>signed char\<close> levels, every result of
  \<open>ire_sample\<close> does: with a white point of 0 the result is 0, and
  otherwise no operation wraps.
\<close>

lemma ire_sample_level:
  assumes wp: "0 \<le> white_point v" and S: "- 128 \<le> S" and W: "W \<le> 127"
    and lo: "S \<le> drop_bit 12 (c_div ((BLACK_LEVEL c + black_point v - 68812) * white_point v) 110)"
    and hi: "drop_bit 12 (c_div ((BLACK_LEVEL c + black_point v + 451860) * white_point v) 110) \<le> W"
  shows "S \<le> ire_sample c v p phase \<and> ire_sample c v p phase \<le> W"
proof (cases "white_point v = 0")
  case True
  with lo hi show ?thesis by (simp add: ire_sample_no_white c_div_def)
next
  case False
  with wp have w1: "1 \<le> white_point v" by simp
  define m where "m = BLACK_LEVEL c + black_point v"
  define k where "k = white_point v"
  have k0: "0 \<le> k" and k1: "1 \<le> k" using wp w1 by (simp_all add: k_def)
  have L: "- 57671790 < (m - 68812) * k"
    using shifted_quotient_lower [of "(m - 68812) * k"] lo S by (simp add: m_def k_def)
  have H: "(m + 451860) * k < 57671680"
    using shifted_quotient_upper [of "(m + 451860) * k"] hi W by (simp add: m_def k_def)
  have LH: "(m - 68812) * k \<le> (m + 451860) * k"
    using k0 by (intro mult_right_mono) simp_all
  have plo: "in_int32 ((m - 68812) * k)" and phi: "in_int32 ((m + 451860) * k)"
    using L H LH by (simp_all add: in_int32_def)
  have hib: "m + 451860 < 57671680"
  proof (cases "0 \<le> m + 451860")
    case True
    from mult_left_mono [OF k1 True] H show ?thesis by simp
  next
    case False
    then show ?thesis by simp
  qed
  have lob: "- 57671790 < m - 68812"
  proof (cases "m - 68812 \<le> 0")
    case True
    from mult_left_mono_neg [OF k1 True] L show ?thesis by simp
  next
    case False
    then show ?thesis by simp
  qed
  have ilo: "in_int32 (m - 68812)" and ihi: "in_int32 (m + 451860)"
    using hib lob by (simp_all add: in_int32_def)
  from ire_sample_between [OF wp ilo [unfolded m_def] ihi [unfolded m_def]
      plo [unfolded m_def k_def] phi [unfolded m_def k_def], of p phase] lo hi
  show ?thesis by linarith
qed

lemma burst_amp_bounds:
  assumes "\<And>a. \<bar>fst (pal_sincos14 c a)\<bar> \<le> 32768"
  shows "- 32 \<le> burst_amp c hu g q \<and> burst_amp c hu g q \<le> 32"
proof -
  let ?sn = "fst (pal_sincos14 c
       (c_div ((g * c_div 360 6 + hu + q * 90 + 135 + (if g AND 1 \<noteq> 0 then - 1 else 1) * 60) * 8192) 180))"
  have sn: "- 32768 \<le> ?sn" "?sn \<le> 32768" using assms [of "c_div ((g * c_div 360 6 + hu + q * 90 + 135 + (if g AND 1 \<noteq> 0 then - 1 else 1) * 60) * 8192) 180"] by linarith+
  have "drop_bit 10 (- 32768 :: int) \<le> drop_bit 10 ?sn" "drop_bit 10 ?sn \<le> drop_bit 10 (32768 :: int)"
    using drop_bit_mono [OF sn(1), of 10] drop_bit_mono [OF sn(2), of 10] by simp_all
  moreover have "drop_bit 10 (- 32768 :: int) = - 32" "drop_bit 10 (32768 :: int) = 32"
    by (simp_all add: drop_bit_eq_div)
  ultimately show ?thesis by (simp add: burst_amp_def)
qed

lemma burst_level:
  assumes "levels_ok c" "\<And>a. \<bar>fst (pal_sincos14 c a)\<bar> \<le> 32768"
  shows "level_ok c (burst_sample c hu g q)"
proof -
  have B: "0 \<le> BURST_LEVEL c" using assms(1) by (simp add: levels_ok_def)
  from burst_amp_bounds [OF assms(2), of hu g q]
  have amp: "- 32 \<le> burst_amp c hu g q" "burst_amp c hu g q \<le> 32" by simp_all
  have "(- 32) * BURST_LEVEL c \<le> burst_amp c hu g q * BURST_LEVEL c"
    "burst_amp c hu g q * BURST_LEVEL c \<le> 32 * BURST_LEVEL c"
    using mult_right_mono [OF amp(1) B] mult_right_mono [OF amp(2) B] by simp_all
  then have lo: "BLANK_LEVEL c - 32 * BURST_LEVEL c \<le> BLANK_LEVEL c + burst_amp c hu g q * BURST_LEVEL c"
    and hi: "BLANK_LEVEL c + burst_amp c hu g q * BURST_LEVEL c \<le> BLANK_LEVEL c + 32 * BURST_LEVEL c"
    by simp_all
  have "drop_bit 5 (BLANK_LEVEL c - 32 * BURST_LEVEL c)
        \<le> drop_bit 5 (BLANK_LEVEL c + burst_amp c hu g q * BURST_LEVEL c)"
    "drop_bit 5 (BLANK_LEVEL c + burst_amp c hu g q * BURST_LEVEL c)
        \<le> drop_bit 5 (BLANK_LEVEL c + 32 * BURST_LEVEL c)"
    using drop_bit_mono [OF lo, of 5] drop_bit_mono [OF hi, of 5] by simp_all
  then show ?thesis
    unfolding burst_sample_def using assms(1)
    by (intro level_ok_to_schar) (simp_all add: levels_ok_def)
qed


lemma line_sample_level:
  assumes "levels_ok c" "\<And>a. \<bar>fst (pal_sincos14 c a)\<bar> \<le> 32768" "0 \<le> white_point v"
    and "SYNC_LEVEL c \<le> drop_bit 12 (c_div ((BLACK_LEVEL c + black_point v - 68812) * white_point v) 110)"
    and "drop_bit 12 (c_div ((BLACK_LEVEL c + black_point v + 451860) * white_point v) 110) \<le> WHITE_LEVEL c"
    and "level_ok c old"
  shows "level_ok c (line_sample c v s y t old)"
proof -
  have rng: "- 128 \<le> SYNC_LEVEL c" "WHITE_LEVEL c \<le> 127"
    using assms(1) by (simp_all add: levels_ok_def)
  have av: "\<And>p phase. level_ok c (to_schar (ire_sample c v p phase))"
  proof -
    fix p phase
    from ire_sample_level [OF assms(3) rng assms(4,5), of p phase]
    have "SYNC_LEVEL c \<le> ire_sample c v p phase" "ire_sample c v p phase \<le> WHITE_LEVEL c"
      by simp_all
    then show "level_ok c (to_schar (ire_sample c v p phase))"
      by (rule level_ok_to_schar [OF assms(1)])
  qed
  have sy: "level_ok c (to_schar (SYNC_LEVEL c))"
    using assms(1) by (intro level_ok_to_schar) (simp_all add: levels_ok_def)
  show ?thesis
    unfolding line_sample_def
    using av sy burst_level [OF assms(1,2)] assms(6) by simp
qed

lemma div_less_rows:
  assumes "0 < (H::int)" "i < H * V"
  shows "i div H < V"
proof (rule ccontr)
  assume "\<not> i div H < V"
  then have "V \<le> i div H" by simp
  then have "H * V \<le> H * (i div H)" using assms(1) by (simp add: mult_left_mono)
  also have "\<dots> \<le> i"
    using assms(1) by (metis add_increasing2 mult_div_mod_eq order_refl pos_mod_sign)
  finally show False using assms(2) by simp
qed

lemma setup_field_level:
  assumes "timing_ok c" "levels_ok c" "0 \<le> i" "i < PAL_HRES c * PAL_VRES c"
  shows "level_ok c (analog (setup_field c v) i)"
proof -
  have H: "0 < PAL_HRES c" using assms(1) by (simp add: timing_ok_def)
  have n: "0 \<le> i div PAL_HRES c" "i div PAL_HRES c < PAL_VRES c"
    using H assms(3,4) by (simp_all add: pos_imp_zdiv_nonneg_iff div_less_rows)
  have t: "0 \<le> i mod PAL_HRES c" "i mod PAL_HRES c < PAL_HRES c" using H by simp_all
  from setup_field_sample [OF assms(1) n t, of v]
  show ?thesis by (simp add: waveform_level [OF assms(2)])
qed

text \<open>
  C8, as stated, holds for every black and white point. In the sample
  configuration a white point of 110 with a frame of code 0x30 gives the
  sample 110, above the white level 100.
\<close>

theorem raised_white_point_leaves_range:
  "out_sample (pal_modulate sample_core bright_crt (flat_frame 48))
     (av_index sample_core 0 0) = Some 110 \<and>
   \<not> level_ok sample_core 110"
proof -
  have g: "\<forall>i. data (flat_frame 48) i = 48" "(0::int) \<le> 0" "0 < PAL_LINES sample_core" "0 < AV_LEN sample_core"
    by (simp_all add: flat_frame_def sample_core_def)
  have r: "in_int32 (BLACK_LEVEL sample_core + black_point bright_crt - 68812)"
    "in_int32 (BLACK_LEVEL sample_core + black_point bright_crt + 451860)"
    "in_int32 ((BLACK_LEVEL sample_core + black_point bright_crt - 68812) * white_point bright_crt)"
    "in_int32 ((BLACK_LEVEL sample_core + black_point bright_crt + 451860) * white_point bright_crt)"
    by (simp_all add: sample_core_def bright_crt_def fresh_crt_def in_int32_def)
  have "to_schar (ire_sample sample_core bright_crt 48
      (wrap32 (line_phase (0 + PAL_TOP sample_core) + 3 * 0))) = 110"
    unfolding ire_sample_sum [OF r] square_sample_white
    by (simp add: sample_core_def fresh_crt_def bright_crt_def c_div_def
        drop_bit_eq_div to_schar_def)
  with flat_frame_sample [OF sample_core_ok g(1,2,3,2,4), of bright_crt]
  have "out_sample (pal_modulate sample_core bright_crt (flat_frame 48))
     (av_index sample_core 0 0) = Some 110"
    by simp
  moreover have "\<not> level_ok sample_core 110"
    by (simp add: level_ok_def sample_core_def)
  ultimately show ?thesis by simp
qed

text \<open>
  C8, amended. After a full pass (\<open>setup_field\<close> and the line loop) every
  sample of the buffer of \<open>PAL_HRES * PAL_VRES\<close> samples lies in
  \<open>[SYNC_LEVEL, WHITE_LEVEL]\<close>, provided the white point is not negative
  and the black and white point keep the darkest and the brightest table
  sum in that interval:
  \<open>SYNC_LEVEL \<le> ((BLACK_LEVEL + black_point - 68812) * white_point / 110) >> 12\<close>
  and
  \<open>((BLACK_LEVEL + black_point + 451860) * white_point / 110) >> 12 \<le> WHITE_LEVEL\<close>.
  The levels of the header satisfy \<open>levels_ok\<close> and the sine of
  \<open>pal_sincos14\<close> is at most \<open>2^15\<close> in absolute value.
\<close>

theorem full_pass_levels:
  assumes "core_ok c" and "levels_ok c" and "\<And>a. \<bar>fst (pal_sincos14 c a)\<bar> \<le> 32768"
    and "\<not> field_initialized s" and "0 \<le> white_point v"
    and "SYNC_LEVEL c \<le> drop_bit 12 (c_div ((BLACK_LEVEL c + black_point v - 68812) * white_point v) 110)"
    and "drop_bit 12 (c_div ((BLACK_LEVEL c + black_point v + 451860) * white_point v) 110) \<le> WHITE_LEVEL c"
    and "0 \<le> i" and "i < PAL_HRES c * PAL_VRES c"
  shows "\<exists>b. out_sample (pal_modulate c v s) i = Some b \<and> level_ok c b"
proof -
  have t: "timing_ok c" using core_ok_windows(12) [OF assms(1)] .
  have a0: "level_ok c (analog (setup_field c v) i)"
    by (rule setup_field_level [OF t assms(2,8,9)])
  have "level_ok c (encoded c v s (analog (setup_field c v)) i)"
    unfolding encoded_def
    using a0 line_sample_level [OF assms(2,3,5,6,7) a0] by simp
  then show ?thesis
    using assms(1,4) by (simp add: out_sample_eq start_buffer_def)
qed

lemma tri14_bound: "\<bar>tri14 a\<bar> \<le> 32768"
proof -
  have "0 \<le> a mod 16384" "a mod 16384 < 16384" by simp_all
  then show ?thesis unfolding tri14_def Let_def by (auto split: if_splits)
qed

lemma sample_levels_ok: "levels_ok sample_core"
  by (simp add: levels_ok_def sample_core_def drop_bit_eq_div)

theorem full_pass_levels_witness:
  "core_ok sample_core \<and> levels_ok sample_core \<and> \<not> field_initialized (flat_frame 48) \<and>
   0 \<le> white_point fresh_crt \<and>
   SYNC_LEVEL sample_core \<le> drop_bit 12 (c_div
      ((BLACK_LEVEL sample_core + black_point fresh_crt - 68812) * white_point fresh_crt) 110) \<and>
   drop_bit 12 (c_div
      ((BLACK_LEVEL sample_core + black_point fresh_crt + 451860) * white_point fresh_crt) 110)
     \<le> WHITE_LEVEL sample_core \<and>
   0 \<le> av_index sample_core 0 0 \<and> av_index sample_core 0 0 < PAL_HRES sample_core * PAL_VRES sample_core \<and>
   out_sample (pal_modulate sample_core fresh_crt (flat_frame 48)) (av_index sample_core 0 0) = Some 100 \<and>
   level_ok sample_core 100"
proof -
  have s: "\<And>a. \<bar>fst (pal_sincos14 sample_core a)\<bar> \<le> 32768"
    using tri14_bound by (simp add: sample_core_def)
  have h: "\<not> field_initialized (flat_frame 48)" "0 \<le> white_point fresh_crt"
    "SYNC_LEVEL sample_core \<le> drop_bit 12 (c_div
      ((BLACK_LEVEL sample_core + black_point fresh_crt - 68812) * white_point fresh_crt) 110)"
    "drop_bit 12 (c_div
      ((BLACK_LEVEL sample_core + black_point fresh_crt + 451860) * white_point fresh_crt) 110)
     \<le> WHITE_LEVEL sample_core"
    "0 \<le> av_index sample_core 0 0" "av_index sample_core 0 0 < PAL_HRES sample_core * PAL_VRES sample_core"
    by (simp_all add: flat_frame_def fresh_crt_def sample_core_def c_div_def drop_bit_eq_div
        av_index_def av_start_def)
  have g: "\<forall>i. data (flat_frame 48) i = 48" "(0::int) \<le> 0" "0 < PAL_LINES sample_core" "0 < AV_LEN sample_core"
    by (simp_all add: flat_frame_def sample_core_def)
  have v: "out_sample (pal_modulate sample_core fresh_crt (flat_frame 48)) (av_index sample_core 0 0)
      = Some 100"
    by (rule white_frame_sample [OF sample_core_ok sample_black_level fresh_points g(1,2,3,2,4)])
  from full_pass_levels [OF sample_core_ok sample_levels_ok s h] v
  have "level_ok sample_core 100" by auto
  with sample_core_ok sample_levels_ok h v show ?thesis by simp
qed

section \<open>Range analysis of the pixel modulation\<close>

lemma square_steps_in_range:
  assumes "0 \<le> p" "p \<le> 511" "0 \<le> phase" "phase \<le> 2147483632"
  shows "list_all in_int32 (square_steps p phase)"
proof -
  define hue where "hue = p AND 15"
  define d1 where "d1 = drop_bit 1 phase"
  define lu where "lu = drop_bit 4 p AND 3"
  define l :: int where "l = (if hue = 0 then 1 else if hue = 13 then 0
                              else if c_mod (hue + phase) 12 < 6 then 1 else 0)"
  define e where "e = spec_emphasis p phase"
  have hue: "0 \<le> hue" "hue \<le> 15" using hue_range [of p] by (simp_all add: hue_def)
  have hp: "0 \<le> hue + phase" using hue assms by simp
  have m12: "c_mod (hue + phase) 12 = (hue + phase) mod 12" using hp by (simp add: c_mod_nonneg)
  have d1: "0 \<le> d1" "d1 \<le> phase"
    using assms(3) by (simp_all add: d1_def drop_bit_eq_div pos_imp_zdiv_nonneg_iff div_le_self_int)
  have m6: "c_mod d1 6 = d1 mod 6" using d1 by (simp add: c_mod_nonneg)
  have em: "0 \<le> p AND 448" "p AND 448 \<le> 448" by (simp_all add: AND_upper2')
  have d4: "0 \<le> drop_bit 4 p" "drop_bit 4 p \<le> p"
    using assms(1) by (simp_all add: drop_bit_eq_div pos_imp_zdiv_nonneg_iff div_le_self_int)
  have lu: "0 \<le> lu" "lu \<le> 3" using luma_range by (simp_all add: lu_def)
  have l: "l = 0 \<or> l = 1" by (simp add: l_def)
  have e: "e = 0 \<or> e = 1" by (simp add: e_def spec_emphasis_def)
  have pl: "0 \<le> push_bit 3 l" "push_bit 3 l \<le> 8" using l by auto
  have pe: "0 \<le> push_bit 2 e" "push_bit 2 e \<le> 4" using e by auto
  have r: "in_int32 hue" "in_int32 (hue + phase)" "in_int32 (c_mod (hue + phase) 12)"
    "in_int32 d1" "in_int32 (c_mod d1 6)" "in_int32 (p AND 448)" "in_int32 (drop_bit 4 p)"
    "in_int32 lu" "in_int32 (push_bit 3 l)" "in_int32 (push_bit 2 e)"
    "in_int32 (push_bit 3 l + push_bit 2 e)" "in_int32 (push_bit 3 l + push_bit 2 e + lu)"
    unfolding m12 m6
    using hue hp d1 em d4 lu pl pe assms by (intro in_int32_small; simp)+
  have "square_steps p phase =
      [hue, hue + phase, c_mod (hue + phase) 12, d1, c_mod d1 6, p AND 448, drop_bit 4 p, lu,
       push_bit 3 l, push_bit 2 e, push_bit 3 l + push_bit 2 e, push_bit 3 l + push_bit 2 e + lu]"
    by (simp only: square_steps_def Let_def hue_def d1_def lu_def l_def e_def)
  then show ?thesis using r by simp
qed


lemma ire_steps_in_range:
  assumes s: "- 17203 \<le> s0 \<and> s0 \<le> 112965" "- 17203 \<le> s1 \<and> s1 \<le> 112965"
      "- 17203 \<le> s2 \<and> s2 \<le> 112965" "- 17203 \<le> s3 \<and> s3 \<le> 112965"
    and lo: "in_int32 (BLACK_LEVEL c + black_point v - 68812)"
    and hi: "in_int32 (BLACK_LEVEL c + black_point v + 451860)"
    and plo: "in_int32 ((BLACK_LEVEL c + black_point v - 68812) * white_point v)"
    and phi: "in_int32 ((BLACK_LEVEL c + black_point v + 451860) * white_point v)"
  shows "list_all in_int32 (ire_steps c v s0 s1 s2 s3)"
proof -
  define m where "m = BLACK_LEVEL c + black_point v"
  note b = in_int32_between [OF lo hi, folded m_def]
  have i0: "in_int32 m" by (rule b) simp_all
  have i1: "in_int32 (m + s0)" using s by (intro b) simp_all
  have i2: "in_int32 (m + s0 + s1)" using s by (intro b) simp_all
  have i3: "in_int32 (m + s0 + s1 + s2)" using s by (intro b) simp_all
  have r4: "m - 68812 \<le> m + s0 + s1 + s2 + s3" "m + s0 + s1 + s2 + s3 \<le> m + 451860"
    using s by simp_all
  have i4: "in_int32 (m + s0 + s1 + s2 + s3)" using r4 by (intro b)
  have pr: "in_int32 ((m + s0 + s1 + s2 + s3) * white_point v)"
    using scaled_between [OF r4 plo [folded m_def] phi [folded m_def]] .
  have dv: "in_int32 (c_div ((m + s0 + s1 + s2 + s3) * white_point v) 110)"
    by (rule c_div_110_shrinks [OF pr])
  have sh: "in_int32 (drop_bit 12 (c_div ((m + s0 + s1 + s2 + s3) * white_point v) 110))"
    by (rule drop_bit_12_shrinks [OF dv])
  show ?thesis
    unfolding ire_steps_def Let_def m_def [symmetric]
    using i0 i1 i2 i3 i4 pr dv sh by simp
qed

text \<open>
  C9. For a 9-bit pixel code, a phase of the column loop (the start phase of
  a line plus three per column, for an active width up to 715827868) and a
  black and white point for which the darkest table sum,
  \<open>BLACK_LEVEL + black_point - 68812\<close>, and the brightest,
  \<open>BLACK_LEVEL + black_point + 451860\<close>, and their products with the white
  point fit 32 bits: the four calls of \<open>square_sample\<close> return table
  entries, whatever lies in memory around the tables, and every
  intermediate value (inside \<open>square_sample\<close>, the phases, the four sums,
  the product, the quotient by 110 and the shift) fits 32 bits, so that
  the result of the 32-bit computation is the last of these values.
\<close>

theorem modulation_no_overflow:
  assumes "0 \<le> p" and "p \<le> 511"
    and "0 \<le> x" and "x < AV_LEN c" and "AV_LEN c \<le> 715827868"
    and "phase = line_phase n + 3 * x"
    and "in_int32 (BLACK_LEVEL c + black_point v - 68812)"
    and "in_int32 (BLACK_LEVEL c + black_point v + 451860)"
    and "in_int32 ((BLACK_LEVEL c + black_point v - 68812) * white_point v)"
    and "in_int32 ((BLACK_LEVEL c + black_point v + 451860) * white_point v)"
  shows "\<exists>s0 s1 s2 s3.
           (\<forall>m. square_sample m p (phase + 0) = s0) \<and> (\<forall>m. square_sample m p (phase + 1) = s1) \<and>
           (\<forall>m. square_sample m p (phase + 2) = s2) \<and> (\<forall>m. square_sample m p (phase + 3) = s3) \<and>
           ire_sample c v p phase = last (ire_steps c v s0 s1 s2 s3) \<and>
           list_all in_int32 (ire_steps c v s0 s1 s2 s3) \<and>
           list_all in_int32 [phase + 0, phase + 1, phase + 2, phase + 3] \<and>
           list_all in_int32 (square_steps p (phase + 0) @ square_steps p (phase + 1) @
                              square_steps p (phase + 2) @ square_steps p (phase + 3))"
proof -
  note cp = column_phase [OF assms(3,4,5), of n, folded assms(6)]
  have ph: "0 \<le> phase" "phase + 3 \<le> 2147483632" using cp(2,3) by simp_all
  have sq: "\<And>k m. 0 \<le> k \<Longrightarrow> k \<le> 3 \<Longrightarrow> square_sample m p (phase + k) = square_value p (phase + k)"
    using ph by (intro square_sample_value) simp_all
  have st: "\<And>k. 0 \<le> k \<Longrightarrow> k \<le> 3 \<Longrightarrow> list_all in_int32 (square_steps p (phase + k))"
    using ph by (intro square_steps_in_range assms(1,2)) simp_all
  have pk: "list_all in_int32 [phase + 0, phase + 1, phase + 2, phase + 3]"
    using ph by (simp add: in_int32_def)
  have "ire_sample c v p phase =
      last (ire_steps c v (square_sample (beyond_active c) p phase)
                   (square_sample (beyond_active c) p (phase + 1))
                   (square_sample (beyond_active c) p (phase + 2))
                   (square_sample (beyond_active c) p (phase + 3)))"
    unfolding ire_sample_exact [OF assms(7-10) cp(2,3)] by (simp add: ire_steps_def Let_def)
  then have ire: "ire_sample c v p phase =
      last (ire_steps c v (square_value p (phase + 0)) (square_value p (phase + 1))
                   (square_value p (phase + 2)) (square_value p (phase + 3)))"
    using sq [of 0 "beyond_active c"] sq [of 1 "beyond_active c"] sq [of 2 "beyond_active c"]
      sq [of 3 "beyond_active c"] by simp
  have vb: "- 17203 \<le> square_value p (phase + q) \<and> square_value p (phase + q) \<le> 112965"
    if "0 \<le> q" "q \<le> 3" for q :: int
    using square_sample_bounds [of "beyond_active c" p "phase + q"] sq [OF that, of "beyond_active c"]
    by simp
  have rng: "list_all in_int32 (ire_steps c v (square_value p (phase + 0)) (square_value p (phase + 1))
                   (square_value p (phase + 2)) (square_value p (phase + 3)))"
    by (rule ire_steps_in_range [OF vb vb vb vb assms(7,8,9,10)]) simp_all
  show ?thesis
    using sq [of 0] sq [of 1] sq [of 2] sq [of 3] st [of 0] st [of 1] st [of 2] st [of 3] pk ire rng
    by (intro exI [of _ "square_value p (phase + 0)"] exI [of _ "square_value p (phase + 1)"]
        exI [of _ "square_value p (phase + 2)"] exI [of _ "square_value p (phase + 3)"]) simp
qed

theorem modulation_no_overflow_witness:
  "(0::int) \<le> 48 \<and> (48::int) \<le> 511 \<and> (0::int) \<le> 140 \<and> 140 < AV_LEN sample_core \<and>
   AV_LEN sample_core \<le> 715827868 \<and> 430 = line_phase 29 + 3 * 140 \<and>
   in_int32 (BLACK_LEVEL sample_core + black_point fresh_crt - 68812) \<and>
   in_int32 (BLACK_LEVEL sample_core + black_point fresh_crt + 451860) \<and>
   in_int32 ((BLACK_LEVEL sample_core + black_point fresh_crt - 68812) * white_point fresh_crt) \<and>
   in_int32 ((BLACK_LEVEL sample_core + black_point fresh_crt + 451860) * white_point fresh_crt) \<and>
   ire_sample sample_core fresh_crt 48 430 = 100 \<and>
   list_all in_int32 (ire_steps sample_core fresh_crt 112965 112965 112965 112965)"
proof -
  have h: "(0::int) \<le> 48" "(48::int) \<le> 511" "(0::int) \<le> 140" "140 < AV_LEN sample_core"
    "AV_LEN sample_core \<le> 715827868" "430 = line_phase 29 + 3 * 140"
    "in_int32 (BLACK_LEVEL sample_core + black_point fresh_crt - 68812)"
    "in_int32 (BLACK_LEVEL sample_core + black_point fresh_crt + 451860)"
    "in_int32 ((BLACK_LEVEL sample_core + black_point fresh_crt - 68812) * white_point fresh_crt)"
    "in_int32 ((BLACK_LEVEL sample_core + black_point fresh_crt + 451860) * white_point fresh_crt)"
    by (simp_all add: sample_core_def fresh_crt_def line_phase_def in_int32_def)
  have l: "last (ire_steps sample_core fresh_crt 112965 112965 112965 112965) = 100"
    by (simp add: ire_steps_def sample_core_def fresh_crt_def c_div_def drop_bit_eq_div)
  from modulation_no_overflow [OF h]
  obtain s0 s1 s2 s3 where
    s: "\<forall>m. square_sample m 48 (430 + 0) = s0" "\<forall>m. square_sample m 48 (430 + 1) = s1"
      "\<forall>m. square_sample m 48 (430 + 2) = s2" "\<forall>m. square_sample m 48 (430 + 3) = s3"
    and i: "ire_sample sample_core fresh_crt 48 430 = last (ire_steps sample_core fresh_crt s0 s1 s2 s3)"
    and r: "list_all in_int32 (ire_steps sample_core fresh_crt s0 s1 s2 s3)"
    by blast
  from s have e: "s0 = 112965" "s1 = 112965" "s2 = 112965" "s3 = 112965"
    by (simp_all add: square_sample_white)
  from i r l have "ire_sample sample_core fresh_crt 48 430 = 100"
    and "list_all in_int32 (ire_steps sample_core fresh_crt 112965 112965 112965 112965)"
    unfolding e by simp_all
  with h show ?thesis by simp
qed

end
